theory Spec2Isabelle
  imports Main "HOL-Library.Word"
begin

unbundle bit_operations_syntax

section \<open>Bytes, text and errors\<close>

text \<open>
  The archive codec of \<^verbatim>\<open>farc.py\<close> works on Python \<^verbatim>\<open>bytes\<close> values, on file
  names and on unbounded integers. A byte is an 8-bit word, a buffer a list of bytes,
  sizes and offsets are natural numbers. A file name is the list of its code units in the
  archive's fixed code page (\<^verbatim>\<open>ENCODING = 'cp932'\<close>), one \<open>char\<close> per encoded byte;
  \<open>encode\<close> and \<open>decode\<close> move between the two views. That is the view of the
  read cursor of \<^verbatim>\<open>unpack\<close>, which is built with the code page (line 66).
\<close>

type_synonym byte = "8 word"
type_synonym bytes = "byte list"

datatype error =
    InvalidFormat
  | OutOfBounds
  | MalformedData
  | DecompressionError
  | ValueRange
  | ZeroDivision
  | EncodeError

definition encode :: "string \<Rightarrow> bytes" where
  "encode s = map (\<lambda>c. of_nat (of_char c)) s"

definition decode :: "bytes \<Rightarrow> string" where
  "decode bs = map (\<lambda>b. char_of (unat b)) bs"

text \<open>
  On the write path \<^verbatim>\<open>farc.py\<close> encodes names in two ways. \<^verbatim>\<open>repack\<close> sizes
  the header with \<^verbatim>\<open>x[0].encode(ENCODING)\<close> (line 123), but the cursors that write
  the names are built without the code page (\<^verbatim>\<open>BinaryReader(endianness=Endian.BIG)\<close>
  in line 128, \<^verbatim>\<open>BinaryReader(data)\<close> in line 34), so they encode with the default
  codec of the package, which is UTF-8. Both encoders are Python's and are parameters of
  the writer; \<open>None\<close> stands for the \<^verbatim>\<open>UnicodeEncodeError\<close> that they raise on a
  name they cannot encode, which is the error \<open>EncodeError\<close> here.
\<close>

type_synonym codec = "string \<Rightarrow> bytes option"

text \<open>Names of ASCII characters other than the null character. Both encoders turn
  such a name into its ASCII bytes, the bytes of \<open>encode\<close>.\<close>

definition ascii :: "string \<Rightarrow> bool" where
  "ascii s = list_all (\<lambda>c. 0 < (of_char c :: nat) \<and> (of_char c :: nat) < 128) s"

definition ascii_codec :: "codec \<Rightarrow> bool" where
  "ascii_codec enc \<longleftrightarrow> (\<forall>s. ascii s \<longrightarrow> enc s = Some (encode s))"

text \<open>Error propagation: the first failing step decides the result.\<close>

definition bind_err :: "error + 'a \<Rightarrow> ('a \<Rightarrow> error + 'b) \<Rightarrow> error + 'b" where
  "bind_err m f = (case m of Inl e \<Rightarrow> Inl e | Inr x \<Rightarrow> f x)"

section \<open>The binary cursor\<close>

text \<open>
  \<^verbatim>\<open>BinaryReader\<close> comes from the package \<^verbatim>\<open>binary_reader\<close>, which \<^verbatim>\<open>farc.py\<close>
  imports. Its operations are described in the specification (section 4.1, Binary
  Cursor): a byte buffer with a current position. The archive's integers are big-endian.
\<close>

record cursor =
  buf :: bytes
  idx :: nat

text \<open>
  What the loop of \<^verbatim>\<open>repack\<close> writes for one file is kept beside its two
  cursors: the name, the bytes written for it, the offset written to the table, the
  bytes appended to the data buffer and the length of the raw file. This list is not in
  the source; it names the values of the loop so that they can be spoken about.
\<close>

record written =
  w_name :: string
  w_name_bytes :: bytes
  w_offset :: nat
  w_stored :: bytes
  w_raw_size :: nat

text \<open>Modelled from the spec: the constructor \<^verbatim>\<open>BinaryReader(data)\<close>, a cursor over
  the given bytes with the position initially 0.\<close>

definition BinaryReader :: "bytes \<Rightarrow> cursor" where
  "BinaryReader b = \<lparr>buf = b, idx = 0\<rparr>"

text \<open>Modelled from the spec: \<^verbatim>\<open>pos()\<close>, the current position.\<close>

definition pos :: "cursor \<Rightarrow> nat" where
  "pos c = idx c"

text \<open>Modelled from the spec: \<^verbatim>\<open>size()\<close>, the length of the buffer.\<close>

definition size_c :: "cursor \<Rightarrow> nat" where
  "size_c c = length (buf c)"

text \<open>Modelled from the spec: \<^verbatim>\<open>buffer()\<close> returns the full underlying
  bytes.\<close>

definition buffer :: "cursor \<Rightarrow> bytes" where
  "buffer c = buf c"

text \<open>Modelled from the spec: \<^verbatim>\<open>seek(offset)\<close> from the start. A target behind
  the end of the buffer is the cursor's \<open>OutOfBounds\<close> error.\<close>

definition seek :: "nat \<Rightarrow> cursor \<Rightarrow> error + cursor" where
  "seek off c = (if off \<le> length (buf c) then Inr (c\<lparr>idx := off\<rparr>) else Inl OutOfBounds)"

text \<open>Modelled from the spec: \<^verbatim>\<open>seek(offset, Whence.CUR)\<close>, relative to the
  position.\<close>

definition seek_cur :: "nat \<Rightarrow> cursor \<Rightarrow> error + cursor" where
  "seek_cur off c = seek (idx c + off) c"

text \<open>Modelled from the spec: reads fail with \<open>OutOfBounds\<close> when fewer bytes remain
  than required, and advance the position by what they read.\<close>

definition read_bytes :: "nat \<Rightarrow> cursor \<Rightarrow> error + (bytes \<times> cursor)" where
  "read_bytes n c =
     (if idx c + n \<le> length (buf c)
      then Inr (take n (drop (idx c) (buf c)), c\<lparr>idx := idx c + n\<rparr>)
      else Inl OutOfBounds)"

text \<open>Modelled from the spec: \<^verbatim>\<open>read_uint8()\<close> reads a single byte.\<close>

definition read_uint8 :: "cursor \<Rightarrow> error + (byte \<times> cursor)" where
  "read_uint8 c =
     (case drop (idx c) (buf c) of
        [] \<Rightarrow> Inl OutOfBounds
      | b # _ \<Rightarrow> Inr (b, c\<lparr>idx := idx c + 1\<rparr>))"

text \<open>Modelled from the spec: big-endian 4-byte unsigned integers, as byte lists and
  back.\<close>

definition uint32_be :: "nat \<Rightarrow> bytes" where
  "uint32_be n =
     [of_nat (n div 16777216), of_nat (n div 65536), of_nat (n div 256), of_nat n]"

fun be_nat :: "bytes \<Rightarrow> nat" where
  "be_nat [] = 0"
| "be_nat (b # bs) = unat b * 256 ^ length bs + be_nat bs"

text \<open>Modelled from the spec: \<^verbatim>\<open>read_uint32()\<close> reads four bytes as one
  big-endian unsigned integer. \<^verbatim>\<open>read_uint32(2)\<close> of \<^verbatim>\<open>unpack\<close> is two of
  them in a row.\<close>

definition read_uint32 :: "cursor \<Rightarrow> error + (nat \<times> cursor)" where
  "read_uint32 c = bind_err (read_bytes 4 c) (\<lambda>(bs, c'). Inr (be_nat bs, c'))"

text \<open>Modelled from the spec: \<^verbatim>\<open>read_str(length)\<close> reads exactly that many bytes
  and decodes them.\<close>

definition read_str_n :: "nat \<Rightarrow> cursor \<Rightarrow> error + (string \<times> cursor)" where
  "read_str_n n c = bind_err (read_bytes n c) (\<lambda>(bs, c'). Inr (decode bs, c'))"

text \<open>Modelled from the spec: \<^verbatim>\<open>read_str()\<close> without a length scans forward from
  the position to the next null byte (exclusive), decodes that span and advances past the
  null; it fails with \<open>MalformedData\<close> when there is no null byte before the end.\<close>

definition read_str :: "cursor \<Rightarrow> error + (string \<times> cursor)" where
  "read_str c =
     (let rest = drop (idx c) (buf c) in
      if 0 \<in> set rest
      then (let s = takeWhile (\<lambda>b. b \<noteq> 0) rest
            in Inr (decode s, c\<lparr>idx := idx c + length s + 1\<rparr>))
      else Inl MalformedData)"

text \<open>Modelled from the spec: writes overwrite in place what lies under them and append
  what reaches beyond the end of the buffer; the position moves behind the written
  bytes.\<close>

definition write_bytes :: "bytes \<Rightarrow> cursor \<Rightarrow> cursor" where
  "write_bytes bs c =
     \<lparr>buf = take (idx c) (buf c) @ bs @ drop (idx c + length bs) (buf c),
      idx = idx c + length bs\<rparr>"

text \<open>Modelled from the spec: \<^verbatim>\<open>write_uint8\<close> writes a single byte, appending
  or overwriting as every write does.\<close>

definition write_uint8 :: "byte \<Rightarrow> cursor \<Rightarrow> cursor" where
  "write_uint8 b c = write_bytes [b] c"

text \<open>Modelled from the spec: \<^verbatim>\<open>write_uint32\<close> writes a big-endian 4-byte
  unsigned integer. A Python integer that is not below \<open>2 ^ 32\<close> is no such integer:
  packing it into four bytes raises, which is the error \<open>ValueRange\<close> here.\<close>

definition write_uint32 :: "nat \<Rightarrow> cursor \<Rightarrow> error + cursor" where
  "write_uint32 n c =
     (if n < 4294967296 then Inr (write_bytes (uint32_be n) c) else Inl ValueRange)"

text \<open>Modelled from the spec: \<^verbatim>\<open>write_str(s, null_terminate)\<close> encodes the
  string, writes the bytes and optionally a single null byte. The codec is the one the
  cursor was built with; it is the first argument here.\<close>

definition write_str :: "codec \<Rightarrow> string \<Rightarrow> bool \<Rightarrow> cursor \<Rightarrow> error + cursor" where
  "write_str enc s null c =
     (case enc s of
        None \<Rightarrow> Inl EncodeError
      | Some bs \<Rightarrow> Inr (write_bytes (bs @ (if null then [0] else [])) c))"

text \<open>Modelled from the spec: \<^verbatim>\<open>extend(bytes)\<close> appends raw bytes at the end of
  the buffer. The position stays where it is: \<^verbatim>\<open>repack\<close> itself moves it by hand
  after its \<^verbatim>\<open>extend\<close> (\<^verbatim>\<open>farc.seek(data_br.size(), Whence.CUR)\<close>).\<close>

definition extend :: "bytes \<Rightarrow> cursor \<Rightarrow> cursor" where
  "extend bs c = c\<lparr>buf := buf c @ bs\<rparr>"

text \<open>Modelled from the spec: the number of zero bytes with which \<^verbatim>\<open>align(n)\<close>
  pads a buffer of the given size, until \<^verbatim>\<open>size() % n == 0\<close>. A position at the
  end follows the end. The remainder by 0 raises in Python; \<^verbatim>\<open>align\<close> is only
  called behind the check of \<^verbatim>\<open>repack\<close> that already raised then.\<close>

definition pad_len :: "nat \<Rightarrow> nat \<Rightarrow> nat" where
  "pad_len n sz = (if sz mod n \<noteq> 0 then n - sz mod n else 0)"

text \<open>Modelled from the spec: \<^verbatim>\<open>align(n)\<close> appends that many zero bytes.\<close>

definition align :: "nat \<Rightarrow> cursor \<Rightarrow> cursor" where
  "align n c =
     (let p = pad_len n (length (buf c)) in
      \<lparr>buf = buf c @ replicate p 0,
       idx = (if idx c = length (buf c) then idx c + p else idx c)\<rparr>)"

section \<open>The gzip name injector\<close>

text \<open>
  \<^verbatim>\<open>write_gzip_name(name, data)\<close> (\<^verbatim>\<open>farc.py\<close>, lines 33 to 50): set the FNAME
  bit in the flags byte at offset 3, set the operating-system byte at offset 9 to 3,
  remember the buffer from the position (now 10) on, write the null-terminated name
  there, and return the buffer up to the position followed by the remembered rest. The
  cursor is \<^verbatim>\<open>BinaryReader(data)\<close>, built without the code page, so the name is
  encoded with the default codec.
\<close>

definition write_gzip_name :: "codec \<Rightarrow> string \<Rightarrow> bytes \<Rightarrow> error + bytes" where
  "write_gzip_name default_codec name data =
     (let br = BinaryReader data in
      bind_err (seek 3 br) (\<lambda>br.
      bind_err (read_uint8 br) (\<lambda>(flags, br).
      bind_err (seek 3 br) (\<lambda>br.
      let br = write_uint8 (flags OR 8) br in
      bind_err (seek 9 br) (\<lambda>br.
      let br = write_uint8 3 br;
          rest = drop (pos br) (buffer br) in
      bind_err (write_str default_codec name True br) (\<lambda>br.
      Inr (take (pos br) (buffer br) @ rest)))))))"

section \<open>The archive reader\<close>

text \<open>
  \<^verbatim>\<open>gzip.decompress\<close> and \<^verbatim>\<open>gzip.compress\<close> belong to Python's standard
  library. The reader takes the decompressor as a parameter \<open>gunzip\<close>, where \<open>None\<close>
  stands for the exception raised on a stream it cannot decode; the writer takes the
  compressor as a parameter \<open>gzip\<close>.

  A table entry is the triple of name, offset and stored size that \<^verbatim>\<open>unpack\<close>
  appends to its list \<^verbatim>\<open>entries\<close>.
\<close>

type_synonym entry = "string \<times> nat \<times> nat"

text \<open>One round of the loop of \<^verbatim>\<open>unpack\<close> (lines 81 to 86): the name, the offset
  and the size, and in a compressed archive the decompressed size, which is read and
  dropped.\<close>

definition read_entry :: "bool \<Rightarrow> cursor \<Rightarrow> error + (entry \<times> cursor)" where
  "read_entry is_compressed farc =
     bind_err (read_str farc) (\<lambda>(name, farc).
     bind_err (read_uint32 farc) (\<lambda>(offset, farc).
     bind_err (read_uint32 farc) (\<lambda>(stored_size, farc).
     if is_compressed
     then bind_err (read_uint32 farc) (\<lambda>(_, farc). Inr ((name, offset, stored_size), farc))
     else Inr ((name, offset, stored_size), farc))))"

lemma read_bytes_advance:
  "read_bytes n c = Inr (bs, c') \<Longrightarrow>
     buf c' = buf c \<and> idx c' = idx c + n \<and> idx c' \<le> length (buf c)"
  by (auto simp: read_bytes_def split: if_splits)

lemma read_uint32_advance:
  "read_uint32 c = Inr (n, c') \<Longrightarrow>
     buf c' = buf c \<and> idx c' = idx c + 4 \<and> idx c' \<le> length (buf c)"
  by (auto simp: read_uint32_def bind_err_def split: sum.splits dest: read_bytes_advance)

lemma takeWhile_less_if_mem:
  "x \<in> set xs \<Longrightarrow> length (takeWhile (\<lambda>b. b \<noteq> x) xs) < length xs"
  by (induction xs) auto

lemma read_str_advance:
  assumes "read_str c = Inr (s, c')"
  shows "buf c' = buf c \<and> idx c < idx c' \<and> idx c' \<le> length (buf c)"
proof -
  let ?rest = "drop (idx c) (buf c)"
  from assms have mem: "0 \<in> set ?rest"
    and c': "c' = c\<lparr>idx := idx c + length (takeWhile (\<lambda>b. b \<noteq> 0) ?rest) + 1\<rparr>"
    by (auto simp: read_str_def Let_def split: if_splits)
  from mem have "length (takeWhile (\<lambda>b. b \<noteq> 0) ?rest) < length ?rest"
    by (rule takeWhile_less_if_mem)
  with c' show ?thesis by auto
qed

lemma read_entry_advance:
  assumes "read_entry ic c = Inr (en, c')"
  shows "buf c' = buf c \<and> idx c < idx c' \<and> idx c' \<le> length (buf c)"
  using assms
  by (auto simp: read_entry_def bind_err_def split: sum.splits if_splits
      dest!: read_str_advance read_uint32_advance)

text \<open>The loop \<^verbatim>\<open>while farc.pos() < header_size\<close>. Every round moves the position
  forward inside the buffer or fails, so the loop ends.\<close>

function read_entries :: "bool \<Rightarrow> nat \<Rightarrow> cursor \<Rightarrow> error + entry list" where
  "read_entries is_compressed header_size farc =
     (if pos farc < header_size
      then (case read_entry is_compressed farc of
              Inl e \<Rightarrow> Inl e
            | Inr (en, farc') \<Rightarrow>
                (case read_entries is_compressed header_size farc' of
                   Inl e \<Rightarrow> Inl e
                 | Inr entries \<Rightarrow> Inr (en # entries)))
      else Inr [])"
  by pat_completeness auto
termination
proof (relation "measure (\<lambda>(ic, hs, c). length (buf c) - idx c)")
  show "wf (measure (\<lambda>(ic, hs, c). length (buf c) - idx c))" by simp
next
  fix is_compressed :: bool and header_size :: nat and farc y :: cursor
    and x2 :: "entry \<times> cursor" and x :: entry
  assume "read_entry is_compressed farc = Inr x2" and "(x, y) = x2"
  then have "read_entry is_compressed farc = Inr (x, y)" by simp
  from read_entry_advance [OF this]
  have "length (buf y) - idx y < length (buf farc) - idx farc" by auto
  then show "((is_compressed, header_size, y), (is_compressed, header_size, farc))
          \<in> measure (\<lambda>(ic, hs, c). length (buf c) - idx c)"
    by simp
qed

declare read_entries.simps [simp del]

text \<open>Lines 65 to 86 of \<^verbatim>\<open>unpack\<close>: the magic, the header size, the alignment
  (read and dropped) and the entry table. A magic that is neither \<^verbatim>\<open>FArc\<close> nor
  \<^verbatim>\<open>FArC\<close> ends the call before anything is extracted.\<close>

definition parse_archive :: "bytes \<Rightarrow> error + (bool \<times> entry list)" where
  "parse_archive data =
     (let farc = BinaryReader data in
      bind_err (read_str_n 4 farc) (\<lambda>(magic, farc).
      if magic \<noteq> ''FArc'' \<and> magic \<noteq> ''FArC'' then Inl InvalidFormat
      else
        let is_compressed = (magic = ''FArC'') in
        bind_err (read_uint32 farc) (\<lambda>(n, farc).
        let header_size = n + 8 in
        bind_err (read_uint32 farc) (\<lambda>(_, farc).
        bind_err (read_entries is_compressed header_size farc) (\<lambda>entries.
        Inr (is_compressed, entries))))))"

text \<open>The Python slice \<^verbatim>\<open>buffer[offset: offset + size]\<close>: it never raises, a range
  that reaches behind the end of the buffer is cut at the end.\<close>

definition slice :: "bytes \<Rightarrow> nat \<Rightarrow> nat \<Rightarrow> bytes" where
  "slice whole offset stored_size = take stored_size (drop offset whole)"

text \<open>Lines 89 to 97: the entries are extracted one after the other, and each file is
  written as soon as its data is there. The result is the list of the files written, in
  the order of writing, and the error that stopped the loop, if any.\<close>

fun extract_entries ::
  "(bytes \<Rightarrow> bytes option) \<Rightarrow> bool \<Rightarrow> bytes \<Rightarrow> entry list \<Rightarrow>
     (string \<times> bytes) list \<times> error option" where
  "extract_entries gunzip is_compressed whole [] = ([], None)"
| "extract_entries gunzip is_compressed whole ((name, offset, stored_size) # entries) =
     (let data = slice whole offset stored_size in
      if is_compressed
      then (case gunzip data of
              None \<Rightarrow> ([], Some DecompressionError)
            | Some data \<Rightarrow>
                (let (files, err) = extract_entries gunzip is_compressed whole entries
                 in ((name, data) # files, err)))
      else (let (files, err) = extract_entries gunzip is_compressed whole entries
            in ((name, data) # files, err)))"

definition unpack ::
  "(bytes \<Rightarrow> bytes option) \<Rightarrow> bytes \<Rightarrow> (string \<times> bytes) list \<times> error option" where
  "unpack gunzip data =
     (case parse_archive data of
        Inl e \<Rightarrow> ([], Some e)
      | Inr (is_compressed, entries) \<Rightarrow> extract_entries gunzip is_compressed data entries)"

section \<open>The archive writer\<close>

definition entry_size :: "bool \<Rightarrow> nat" where
  "entry_size use_compression = (if use_compression then 12 else 8)"

text \<open>Line 123: the header size from the start of the file, before alignment. The
  names are sized with \<^verbatim>\<open>x[0].encode(ENCODING)\<close>, which raises on a name that the
  code page cannot encode.\<close>

definition org_header_size :: "codec \<Rightarrow> bool \<Rightarrow> (string \<times> bytes) list \<Rightarrow> error + nat" where
  "org_header_size cp932 use_compression file_paths =
     (case those (map (\<lambda>x. cp932 (fst x)) file_paths) of
        None \<Rightarrow> Inl EncodeError
      | Some encoded \<Rightarrow>
          Inr (sum_list (map (\<lambda>bs. length bs + 1 + entry_size use_compression) encoded)
                 + 12))"

text \<open>Lines 125 and 126.\<close>

definition aligned_header_size :: "nat \<Rightarrow> nat \<Rightarrow> nat" where
  "aligned_header_size align_value header_size =
     (if header_size mod align_value \<noteq> 0
      then header_size + (align_value - header_size mod align_value)
      else header_size)"

text \<open>One round of the loop of \<^verbatim>\<open>repack\<close> (lines 134 to 157). The cursor
  \<^verbatim>\<open>farc\<close> of line 128 is built without the code page, so the name is written with
  the default codec.\<close>

definition repack_step ::
  "codec \<Rightarrow> (bytes \<Rightarrow> bytes) \<Rightarrow> bool \<Rightarrow> nat \<Rightarrow> nat \<Rightarrow> string \<times> bytes \<Rightarrow>
     cursor \<times> cursor \<times> written list \<Rightarrow> error + (cursor \<times> cursor \<times> written list)" where
  "repack_step default_codec gzip use_compression align_value header_size file st =
     (case (file, st) of ((name, data), (farc, data_br, log)) \<Rightarrow>
      bind_err (write_str default_codec name True farc) (\<lambda>farc.
      let offset = header_size + size_c data_br in
      bind_err (write_uint32 offset farc) (\<lambda>farc.
      bind_err
        (if use_compression
         then bind_err (write_gzip_name default_codec name (gzip data)) (\<lambda>compressed_data.
              bind_err (write_uint32 (length compressed_data) farc) (\<lambda>farc.
              Inr (farc, extend compressed_data data_br, compressed_data)))
         else Inr (farc, extend data data_br, data))
        (\<lambda>(farc, data_br, stored).
      let data_br = align align_value data_br in
      bind_err (write_uint32 (length data) farc) (\<lambda>farc.
      Inr (farc, data_br,
           log @ [\<lparr>w_name = name, w_name_bytes = the (default_codec name),
                    w_offset = offset, w_stored = stored,
                    w_raw_size = length data\<rparr>]))))))"

fun repack_loop ::
  "codec \<Rightarrow> (bytes \<Rightarrow> bytes) \<Rightarrow> bool \<Rightarrow> nat \<Rightarrow> nat \<Rightarrow> (string \<times> bytes) list \<Rightarrow>
     cursor \<times> cursor \<times> written list \<Rightarrow> error + (cursor \<times> cursor \<times> written list)" where
  "repack_loop default_codec gzip use_compression align_value header_size [] st = Inr st"
| "repack_loop default_codec gzip use_compression align_value header_size
     (file # file_paths) st =
     bind_err (repack_step default_codec gzip use_compression align_value header_size file st)
       (repack_loop default_codec gzip use_compression align_value header_size file_paths)"

text \<open>\<^verbatim>\<open>repack\<close> from line 119 on, on the list of the names and contents of the files
  found. The header is sized first (line 123), then the remainder by an alignment of 0 in
  line 125 raises, both before anything is written.\<close>

definition repack_log ::
  "codec \<Rightarrow> codec \<Rightarrow> (bytes \<Rightarrow> bytes) \<Rightarrow> (string \<times> bytes) list \<Rightarrow> bool \<Rightarrow> nat \<Rightarrow>
     error + (bytes \<times> written list)" where
  "repack_log cp932 default_codec gzip file_paths use_compression align_value =
     bind_err (org_header_size cp932 use_compression file_paths) (\<lambda>org.
     if align_value = 0 then Inl ZeroDivision
     else
       let header_size = aligned_header_size align_value org;
           farc = BinaryReader []
       in
       bind_err (write_str default_codec (if use_compression then ''FArC'' else ''FArc'')
                   False farc) (\<lambda>farc.
       bind_err (write_uint32 (org - 8) farc) (\<lambda>farc.
       bind_err (write_uint32 align_value farc) (\<lambda>farc.
       bind_err (repack_loop default_codec gzip use_compression align_value header_size
                   file_paths (farc, BinaryReader [], [])) (\<lambda>(farc, data_br, log).
       let farc = align align_value farc;
           farc = extend (buffer data_br) farc in
       bind_err (seek_cur (size_c data_br) farc) (\<lambda>farc.
       Inr (buffer farc, log)))))))"

definition repack ::
  "codec \<Rightarrow> codec \<Rightarrow> (bytes \<Rightarrow> bytes) \<Rightarrow> (string \<times> bytes) list \<Rightarrow> bool \<Rightarrow> nat \<Rightarrow>
     error + bytes" where
  "repack cp932 default_codec gzip file_paths use_compression align_value =
     bind_err (repack_log cp932 default_codec gzip file_paths use_compression align_value)
       (\<lambda>(out, log). Inr out)"

section \<open>The layout of a written archive\<close>

text \<open>The bytes of one table entry as the loop writes them: the null-terminated name,
  the offset, the stored size and, in a compressed archive, the raw size.\<close>

definition entry_bytes :: "bool \<Rightarrow> written \<Rightarrow> bytes" where
  "entry_bytes use_compression w =
     w_name_bytes w @ [0] @ uint32_be (w_offset w) @ uint32_be (length (w_stored w))
       @ (if use_compression then uint32_be (w_raw_size w) else [])"

text \<open>The header as written: the magic, the header size field, the alignment and the
  table.\<close>

definition header_bytes :: "bool \<Rightarrow> nat \<Rightarrow> nat \<Rightarrow> written list \<Rightarrow> bytes" where
  "header_bytes use_compression org align_value log =
     encode (if use_compression then ''FArC'' else ''FArc'') @ uint32_be (org - 8)
       @ uint32_be align_value @ concat (map (entry_bytes use_compression) log)"

text \<open>The entry that the reader gets back from a written one.\<close>

definition w_entry :: "written \<Rightarrow> entry" where
  "w_entry w = (decode (w_name_bytes w), w_offset w, length (w_stored w))"

definition w_end :: "written \<Rightarrow> nat" where
  "w_end w = w_offset w + length (w_stored w)"

text \<open>The values of an entry fit their 32-bit fields.\<close>

definition fits :: "bool \<Rightarrow> written \<Rightarrow> bool" where
  "fits use_compression w \<longleftrightarrow>
     w_offset w < 4294967296 \<and> length (w_stored w) < 4294967296 \<and> w_raw_size w < 4294967296
     \<and> (\<not> use_compression \<longrightarrow> w_raw_size w = length (w_stored w))"

text \<open>An entry lies in the data buffer \<open>d\<close>, which starts at \<open>header_size\<close> in the
  file.\<close>

definition placed :: "nat \<Rightarrow> nat \<Rightarrow> bytes \<Rightarrow> written \<Rightarrow> bool" where
  "placed align_value header_size d w \<longleftrightarrow>
     header_size \<le> w_offset w \<and> align_value dvd (w_offset w - header_size)
     \<and> w_end w \<le> header_size + length d
     \<and> take (length (w_stored w)) (drop (w_offset w - header_size) d) = w_stored w"

text \<open>What holds between the rounds of the loop of \<^verbatim>\<open>repack\<close>.\<close>

definition loop_inv ::
  "bool \<Rightarrow> nat \<Rightarrow> nat \<Rightarrow> bytes \<Rightarrow> cursor \<times> cursor \<times> written list \<Rightarrow> bool" where
  "loop_inv use_compression align_value header_size h0 st =
     (case st of (farc, data_br, log) \<Rightarrow>
        idx farc = length (buf farc)
        \<and> buf farc = h0 @ concat (map (entry_bytes use_compression) log)
        \<and> align_value dvd length (buf data_br)
        \<and> (\<forall>w \<in> set log. fits use_compression w
              \<and> placed align_value header_size (buf data_br) w)
        \<and> sorted_wrt (\<lambda>w w'. w_end w \<le> w_offset w') log)"

text \<open>A written entry belongs to an input file: same name, the name bytes are those of
  the default codec, the raw size is the file's length, and the stored bytes are the
  file's bytes or its compressed bytes with the name injected.\<close>

definition stores ::
  "codec \<Rightarrow> (bytes \<Rightarrow> bytes) \<Rightarrow> bool \<Rightarrow> written \<Rightarrow> string \<times> bytes \<Rightarrow> bool" where
  "stores default_codec gzip use_compression w file \<longleftrightarrow>
     w_name w = fst file \<and> default_codec (fst file) = Some (w_name_bytes w)
     \<and> w_raw_size w = length (snd file)
     \<and> (if use_compression
         then write_gzip_name default_codec (fst file) (gzip (snd file)) = Inr (w_stored w)
         else w_stored w = snd file)"

text \<open>What the standard library's gzip does on one file: \<^verbatim>\<open>gzip.compress\<close> returns a
  stream that starts with the fixed header of 10 bytes, with no flag set;
  \<^verbatim>\<open>gzip.decompress\<close> inverts it, and returns the same when the FNAME flag is set, the
  operating-system byte is 3 and the null-terminated name bytes \<open>nb\<close> follow the fixed
  header.\<close>

definition standard_gzip ::
  "(bytes \<Rightarrow> bytes) \<Rightarrow> (bytes \<Rightarrow> bytes option) \<Rightarrow> bytes \<Rightarrow> bytes \<Rightarrow> bool" where
  "standard_gzip gzip gunzip nb data \<longleftrightarrow>
     10 \<le> length (gzip data) \<and> gzip data ! 3 = 0
     \<and> gunzip (gzip data) = Some data
     \<and> gunzip (take 3 (gzip data) @ [8] @ take 5 (drop 4 (gzip data)) @ [3] @ nb @ [0]
                @ drop 10 (gzip data)) = gunzip (gzip data)"

section \<open>A worked example\<close>

text \<open>Two files, packed without compression at an alignment of 16.\<close>

definition example_files :: "(string \<times> bytes) list" where
  "example_files = [(''a.txt'', [104, 101, 108, 108, 111]), (''b'', [1, 2, 3])]"

definition example_log :: "written list" where
  "example_log =
     [\<lparr>w_name = ''a.txt'', w_name_bytes = [97, 46, 116, 120, 116], w_offset = 48,
        w_stored = [104, 101, 108, 108, 111], w_raw_size = 5\<rparr>,
      \<lparr>w_name = ''b'', w_name_bytes = [98], w_offset = 64, w_stored = [1, 2, 3],
        w_raw_size = 3\<rparr>]"

definition example_archive :: bytes where
  "example_archive =
     [70, 65, 114, 99, 0, 0, 0, 28, 0, 0, 0, 16,
      97, 46, 116, 120, 116, 0, 0, 0, 0, 48, 0, 0, 0, 5,
      98, 0, 0, 0, 0, 64, 0, 0, 0, 3]
     @ replicate 12 0
     @ [104, 101, 108, 108, 111] @ replicate 11 0
     @ [1, 2, 3] @ replicate 13 0"

section \<open>What the reader returns\<close>

text \<open>The bytes that the extraction loop obtains for one entry: the slice, decompressed
  in a compressed archive; \<open>None\<close> when the decompressor raises on it.\<close>

definition decoded :: "(bytes \<Rightarrow> bytes option) \<Rightarrow> bool \<Rightarrow> bytes \<Rightarrow> entry \<Rightarrow> bytes option" where
  "decoded gunzip is_compressed whole en =
     (case en of (name, offset, stored_size) \<Rightarrow>
        if is_compressed then gunzip (slice whole offset stored_size)
        else Some (slice whole offset stored_size))"

text \<open>Two cursors at the same position, at or behind \<open>k\<close>, over buffers of the same
  length that agree from \<open>k\<close> on.\<close>

definition same_from :: "nat \<Rightarrow> cursor \<Rightarrow> cursor \<Rightarrow> bool" where
  "same_from k c c' \<longleftrightarrow>
     idx c = idx c' \<and> k \<le> idx c \<and> length (buf c) = length (buf c')
     \<and> drop k (buf c) = drop k (buf c')"

section \<open>The size of what the writer stores\<close>

text \<open>The number of bytes that \<^verbatim>\<open>repack\<close> appends to the data buffer for a file: the
  file's length, or with compression the length of the compressed stream and of the
  null-terminated name that is injected into it.\<close>

definition stored_length ::
  "codec \<Rightarrow> (bytes \<Rightarrow> bytes) \<Rightarrow> bool \<Rightarrow> string \<times> bytes \<Rightarrow> nat" where
  "stored_length default_codec gzip use_compression file =
     (if use_compression
      then length (gzip (snd file))
             + (case default_codec (fst file) of None \<Rightarrow> 0 | Some nb \<Rightarrow> length nb) + 1
      else length (snd file))"

section \<open>More worked examples\<close>

text \<open>The content \<^verbatim>\<open>b"hello"\<close>.\<close>

definition hello :: bytes where
  "hello = [104, 101, 108, 108, 111]"

text \<open>What \<^verbatim>\<open>gzip.compress(b"hello")\<close> returns for the time stamp 0, and the same
  stream with the name \<^verbatim>\<open>a.txt\<close> in its header, which \<^verbatim>\<open>gzip.decompress\<close>
  turns back into \<^verbatim>\<open>b"hello"\<close>.\<close>

definition gzip_hello :: bytes where
  "gzip_hello =
     [31, 139, 8, 0, 0, 0, 0, 0, 2, 3,
      203, 72, 205, 201, 201, 7, 0, 134, 166, 16, 54, 5, 0, 0, 0]"

definition gzip_hello_named :: bytes where
  "gzip_hello_named =
     [31, 139, 8, 8, 0, 0, 0, 0, 2, 3, 97, 46, 116, 120, 116, 0,
      203, 72, 205, 201, 201, 7, 0, 134, 166, 16, 54, 5, 0, 0, 0]"

text \<open>The library's compressor and decompressor, as far as the examples use them: the
  one content that is compressed, and the byte strings that are given to the
  decompressor. It decodes the stream with and without the name, returns the empty byte
  string for the empty one, and raises on the other slices of the examples, which do not
  start with the two magic bytes of gzip.\<close>

definition example_gzip :: "bytes \<Rightarrow> bytes" where
  "example_gzip d = (if d = hello then gzip_hello else [])"

definition example_gunzip :: "bytes \<Rightarrow> bytes option" where
  "example_gunzip s =
     (if s = gzip_hello_named \<or> s = gzip_hello then Some hello
      else if s = [] then Some [] else None)"

text \<open>The file \<^verbatim>\<open>a.txt\<close> packed with compression at an alignment of 16.\<close>

definition compressed_archive :: bytes where
  "compressed_archive =
     [70, 65, 114, 67, 0, 0, 0, 22, 0, 0, 0, 16,
      97, 46, 116, 120, 116, 0, 0, 0, 0, 32, 0, 0, 0, 31, 0, 0, 0, 5, 0, 0]
     @ gzip_hello_named @ [0]"

text \<open>The bytes that the specification gives for the file \<^verbatim>\<open>a.txt\<close> packed
  without compression at an alignment of 1, and the bytes that \<^verbatim>\<open>repack\<close>
  writes for it.\<close>

definition spec_example_archive :: bytes where
  "spec_example_archive =
     [70, 65, 114, 99] @ uint32_be (12 - 8) @ uint32_be 1
       @ [97, 46, 116, 120, 116, 0] @ uint32_be 20 @ uint32_be 5 @ hello"

definition single_archive :: bytes where
  "single_archive =
     [70, 65, 114, 99] @ uint32_be 18 @ uint32_be 1
       @ [97, 46, 116, 120, 116, 0] @ uint32_be 26 @ uint32_be 5 @ hello"

text \<open>The name of one hiragana letter a (U+3042) and the name of two of them, held as
  their code units in the code page: \<^verbatim>\<open>82 A0\<close> a letter.\<close>

definition kana_a :: string where
  "kana_a = [CHR 0x82, CHR 0xA0]"

definition kana_aa :: string where
  "kana_aa = [CHR 0x82, CHR 0xA0, CHR 0x82, CHR 0xA0]"

text \<open>Python's two encoders, as far as the examples use them: a name of ASCII characters,
  which both turn into its ASCII bytes, and the two names of hiragana letters, which
  \<^verbatim>\<open>str.encode('cp932')\<close> turns into two bytes a letter (\<^verbatim>\<open>82 A0\<close>) and UTF-8, the
  default codec of a cursor, into three (\<^verbatim>\<open>E3 81 82\<close>).\<close>

definition example_cp932 :: codec where
  "example_cp932 s =
     (if ascii s \<or> s = kana_a \<or> s = kana_aa then Some (encode s) else None)"

definition example_default_codec :: codec where
  "example_default_codec s =
     (if ascii s then Some (encode s)
      else if s = kana_a then Some [227, 129, 130]
      else if s = kana_aa then Some [227, 129, 130, 227, 129, 130]
      else None)"

text \<open>What \<^verbatim>\<open>repack\<close> writes for the one file of the name \<open>kana_a\<close> with the
  content \<^verbatim>\<open>b"x"\<close>, without compression at an alignment of 1, and what its loop has
  written then.\<close>

definition kana_archive :: bytes where
  "kana_archive =
     [70, 65, 114, 99, 0, 0, 0, 15, 0, 0, 0, 1,
      227, 129, 130, 0, 0, 0, 0, 23, 0, 0, 0, 1,
      120]"

definition kana_log :: "written list" where
  "kana_log =
     [\<lparr>w_name = kana_a, w_name_bytes = [227, 129, 130], w_offset = 23, w_stored = [120],
        w_raw_size = 1\<rparr>]"

text \<open>The same for the one file of the name \<open>kana_aa\<close>.\<close>

definition kana_aa_archive :: bytes where
  "kana_aa_archive =
     [70, 65, 114, 99, 0, 0, 0, 17, 0, 0, 0, 1,
      227, 129, 130, 227, 129, 130, 0, 0, 0, 0, 25, 0, 0, 0, 1,
      120]"

text \<open>The name that the read cursor gets back from the six bytes that UTF-8 gives for
  \<open>kana_aa\<close>: they are three two-byte characters of the code page.\<close>

definition kana_aa_misread :: string where
  "kana_aa_misread = [CHR 0xE3, CHR 0x81, CHR 0x82, CHR 0xE3, CHR 0x81, CHR 0x82]"

text \<open>The compressed stream of \<^verbatim>\<open>b"hello"\<close> with the name \<open>kana_a\<close> injected by
  \<^verbatim>\<open>write_gzip_name\<close>.\<close>

definition gzip_hello_kana :: bytes where
  "gzip_hello_kana =
     [31, 139, 8, 8, 0, 0, 0, 0, 2, 3, 227, 129, 130, 0,
      203, 72, 205, 201, 201, 7, 0, 134, 166, 16, 54, 5, 0, 0, 0]"

text \<open>A compressed archive of two entries: the first is the named stream, the second
  points at the four magic bytes of the archive.\<close>

definition partial_archive :: bytes where
  "partial_archive =
     [70, 65, 114, 67, 0, 0, 0, 36, 0, 0, 0, 1,
      97, 46, 116, 120, 116, 0, 0, 0, 0, 44, 0, 0, 0, 31, 0, 0, 0, 5,
      98, 0, 0, 0, 0, 0, 0, 0, 0, 4, 0, 0, 0, 0]
     @ gzip_hello_named"

text \<open>An archive whose only entry claims 100 bytes from offset 26, where 5 remain.\<close>

definition over_archive :: bytes where
  "over_archive =
     [70, 65, 114, 99, 0, 0, 0, 18, 0, 0, 0, 1,
      97, 46, 116, 120, 116, 0, 0, 0, 0, 26, 0, 0, 0, 100] @ hello"

text \<open>An archive whose only entry is the alignment field itself (offset 8, 4 bytes), with
  the last byte of the field left open.\<close>

definition align_archive :: "byte \<Rightarrow> bytes" where
  "align_archive b =
     [70, 65, 114, 99, 0, 0, 0, 14, 0, 0, 0, b,
      97, 0, 0, 0, 0, 8, 0, 0, 0, 4]"

text \<open>The first worked example with another alignment field.\<close>

definition realigned_archive :: bytes where
  "realigned_archive = take 8 example_archive @ [0, 0, 0, 32] @ drop 12 example_archive"

text \<open>A compressed archive whose only entry points at the four magic bytes.\<close>

definition undecodable_archive :: bytes where
  "undecodable_archive =
     [70, 65, 114, 67, 0, 0, 0, 18, 0, 0, 0, 1,
      97, 0, 0, 0, 0, 0, 0, 0, 0, 4, 0, 0, 0, 0]"

text \<open>An archive of two entries of the same name that lie inside the header, overlap,
  and come in descending order of offset.\<close>

definition overlapping_archive :: bytes where
  "overlapping_archive =
     [70, 65, 114, 99, 0, 0, 0, 24, 0, 0, 0, 1,
      97, 0, 0, 0, 0, 20, 0, 0, 0, 8,
      97, 0, 0, 0, 0, 18, 0, 0, 0, 4]"

text \<open>A compressed archive of two entries of the same name that share one stream.\<close>

definition shared_archive :: bytes where
  "shared_archive =
     [70, 65, 114, 67, 0, 0, 0, 32, 0, 0, 0, 1,
      97, 0, 0, 0, 0, 40, 0, 0, 0, 31, 0, 0, 0, 5,
      97, 0, 0, 0, 0, 40, 0, 0, 0, 31, 0, 0, 0, 5]
     @ gzip_hello_named"

section \<open>Lemmas on the cursor and on the loop of the writer\<close>

lemma length_uint32_be [simp]: "length (uint32_be n) = 4"
  by (simp add: uint32_be_def)

lemma length_encode [simp]: "length (encode s) = length s"
  by (simp add: encode_def)

lemma decode_encode [simp]: "decode (encode s) = s"
  by (induction s) (simp_all add: encode_def decode_def unat_of_nat)

lemma be_nat_uint32_be:
  assumes "n < 4294967296"
  shows "be_nat (uint32_be n) = n"
proof -
  define q1 where "q1 = n div 256"
  define q2 where "q2 = q1 div 256"
  define q3 where "q3 = q2 div 256"
  have d2: "n div 65536 = q2"
    unfolding q2_def q1_def by (simp add: div_mult2_eq [symmetric])
  have d3: "n div 16777216 = q3"
    unfolding q3_def q2_def q1_def by (simp add: div_mult2_eq [symmetric])
  have e0: "n = n mod 256 + 256 * q1" unfolding q1_def by simp
  have e1: "q1 = q1 mod 256 + 256 * q2" unfolding q2_def by simp
  have e2: "q2 = q2 mod 256 + 256 * q3" unfolding q3_def by simp
  have "q3 < 256" using assms unfolding d3 [symmetric] by simp
  then have e3: "q3 mod 256 = q3" by simp
  have "be_nat (uint32_be n) =
        q3 mod 256 * 16777216 + q2 mod 256 * 65536 + q1 mod 256 * 256 + n mod 256"
    by (simp add: uint32_be_def unat_of_nat d2 d3 q1_def)
  also have "\<dots> = n" using e0 e1 e2 e3 by linarith
  finally show ?thesis .
qed

lemma write_bytes_end:
  "idx c = length (buf c) \<Longrightarrow>
     write_bytes bs c = \<lparr>buf = buf c @ bs, idx = length (buf c) + length bs\<rparr>"
  by (simp add: write_bytes_def)

lemma read_bytes_at:
  "read_bytes (length xs) \<lparr>buf = pre @ xs @ rest, idx = length pre\<rparr>
     = Inr (xs, \<lparr>buf = pre @ xs @ rest, idx = length pre + length xs\<rparr>)"
  by (simp add: read_bytes_def)

lemma read_uint32_at:
  assumes "n < 4294967296"
  shows "read_uint32 \<lparr>buf = pre @ uint32_be n @ rest, idx = length pre\<rparr>
     = Inr (n, \<lparr>buf = pre @ uint32_be n @ rest, idx = length pre + 4\<rparr>)"
  using read_bytes_at [of "uint32_be n" pre rest] assms
  by (simp add: read_uint32_def bind_err_def be_nat_uint32_be)

lemma takeWhile_not_mem: "x \<notin> set xs \<Longrightarrow> takeWhile (\<lambda>b. b \<noteq> x) (xs @ x # ys) = xs"
  by (induction xs) auto

lemma pad_len_dvd:
  assumes "0 < a"
  shows "a dvd (n + pad_len a n)"
proof (cases "n mod a = 0")
  case True
  then show ?thesis by (simp add: pad_len_def dvd_eq_mod_eq_0)
next
  case False
  have "n mod a < a" using assms by simp
  then have "n + (a - n mod a) = n div a * a + a"
    using div_mult_mod_eq [of n a] by linarith
  then show ?thesis using False by (simp add: pad_len_def)
qed

lemma bind_err_Inr_iff: "bind_err m f = Inr r \<longleftrightarrow> (\<exists>x. m = Inr x \<and> f x = Inr r)"
  by (cases m) (simp_all add: bind_err_def)

lemma write_uint32_Inr_iff:
  "write_uint32 n c = Inr c' \<longleftrightarrow> n < 4294967296 \<and> c' = write_bytes (uint32_be n) c"
  by (auto simp: write_uint32_def)

lemma write_str_Inr_iff:
  "write_str enc s null c = Inr c' \<longleftrightarrow>
     (\<exists>bs. enc s = Some bs \<and> c' = write_bytes (bs @ (if null then [0] else [])) c)"
  by (auto simp: write_str_def split: option.splits)

lemma ascii_codecD: "ascii_codec enc \<Longrightarrow> ascii s \<Longrightarrow> enc s = Some (encode s)"
  by (simp add: ascii_codec_def)

lemma ascii_magic: "ascii (if uc then ''FArC'' else ''FArc'')"
  by (simp add: ascii_def)

lemma ascii_no_null: "ascii s \<Longrightarrow> 0 \<notin> set (encode s)"
proof (induction s)
  case Nil
  show ?case by (simp add: encode_def)
next
  case (Cons c s)
  from Cons.prems have c: "0 < (of_char c :: nat)" "(of_char c :: nat) < 128"
    and s: "ascii s"
    by (simp_all add: ascii_def)
  have "(of_nat (of_char c) :: byte) \<noteq> 0"
  proof
    assume "(of_nat (of_char c) :: byte) = 0"
    then have "unat (of_nat (of_char c) :: byte) = 0" by simp
    with c show False by (simp add: unat_of_nat)
  qed
  with Cons.IH [OF s] show ?case by (simp add: encode_def)
qed

lemma write_gzip_name_layout:
  assumes "10 \<le> length data" and "wr name = Some nb"
  shows "write_gzip_name wr name data =
     Inr (take 3 data @ [data ! 3 OR 8] @ take 5 (drop 4 data) @ [3] @ nb @ [0]
          @ drop 10 data)"
proof -
  from assms(1) obtain b0 b1 b2 b3 b4 b5 b6 b7 b8 b9 rest where
    d: "data = b0 # b1 # b2 # b3 # b4 # b5 # b6 # b7 # b8 # b9 # rest"
    by (auto simp: Suc_le_length_iff eval_nat_numeral)
  show ?thesis
    unfolding d using assms(2)
    by (simp add: write_gzip_name_def BinaryReader_def seek_def bind_err_def read_uint8_def
        write_uint8_def write_bytes_def pos_def buffer_def write_str_def Let_def)
qed

lemma repack_step_result:
  assumes "repack_step wr gz uc a hs (name, data) (farc, dbr, log) = Inr (farc', dbr', log')"
    and "idx farc = length (buf farc)"
  shows "\<exists>w. log' = log @ [w] \<and> stores wr gz uc w (name, data) \<and> fits uc w
      \<and> w_offset w = hs + length (buf dbr)
      \<and> buf farc' = buf farc @ entry_bytes uc w \<and> idx farc' = length (buf farc')
      \<and> buf dbr' = buf dbr @ w_stored w
            @ replicate (pad_len a (length (buf dbr) + length (w_stored w))) 0"
proof (cases uc)
  case True
  with assms show ?thesis
    by (auto simp: repack_step_def bind_err_Inr_iff write_uint32_Inr_iff write_str_Inr_iff
        write_bytes_end size_c_def extend_def align_def stores_def fits_def entry_bytes_def Let_def)
next
  case False
  with assms show ?thesis
    by (auto simp: repack_step_def bind_err_Inr_iff write_uint32_Inr_iff write_str_Inr_iff
        write_bytes_end size_c_def extend_def align_def stores_def fits_def entry_bytes_def Let_def)
qed

lemma placed_append: "placed a hs d w \<Longrightarrow> placed a hs (d @ e) w"
  by (auto simp: placed_def w_end_def)

lemma placed_new:
  assumes "a dvd length d" and "w_offset w = hs + length d"
  shows "placed a hs (d @ w_stored w @ e) w"
  using assms by (simp add: placed_def w_end_def)

lemma placed_end: "placed a hs d w \<Longrightarrow> w_end w \<le> hs + length d"
  by (simp add: placed_def)

lemma repack_step_inv:
  assumes step: "repack_step wr gz uc a hs fl st = Inr st'"
    and a: "0 < a"
    and inv: "loop_inv uc a hs h0 st"
  shows "loop_inv uc a hs h0 st'"
proof -
  obtain name data where fl: "fl = (name, data)" by (cases fl)
  obtain farc dbr log where st: "st = (farc, dbr, log)" by (cases st)
  obtain farc' dbr' log' where st': "st' = (farc', dbr', log')" by (cases st')
  from inv st have i1: "idx farc = length (buf farc)"
    and i2: "buf farc = h0 @ concat (map (entry_bytes uc) log)"
    and i3: "a dvd length (buf dbr)"
    and i4: "\<forall>w \<in> set log. fits uc w \<and> placed a hs (buf dbr) w"
    and i5: "sorted_wrt (\<lambda>w w'. w_end w \<le> w_offset w') log"
    by (simp_all add: loop_inv_def)
  from repack_step_result [OF step [unfolded fl st st'] i1]
  obtain w where w: "log' = log @ [w]" "fits uc w" "w_offset w = hs + length (buf dbr)"
      "buf farc' = buf farc @ entry_bytes uc w" "idx farc' = length (buf farc')"
      "buf dbr' = buf dbr @ w_stored w
            @ replicate (pad_len a (length (buf dbr) + length (w_stored w))) 0"
    by blast
  have p_old: "\<forall>x \<in> set log. placed a hs (buf dbr') x"
    using i4 w(6) by (simp add: placed_append)
  have p_new: "placed a hs (buf dbr') w"
    unfolding w(6) using i3 w(3) by (rule placed_new)
  have dv: "a dvd length (buf dbr')"
    using pad_len_dvd [OF a, of "length (buf dbr) + length (w_stored w)"]
    by (simp add: w(6) add.assoc)
  have ends: "\<forall>x \<in> set log. w_end x \<le> w_offset w"
    using i4 w(3) by (auto dest: placed_end)
  have srt: "sorted_wrt (\<lambda>w w'. w_end w \<le> w_offset w') log'"
    using i5 ends by (simp add: w(1) sorted_wrt_append)
  show ?thesis
    unfolding st' loop_inv_def
    using w(1,2,4,5) i2 i4 p_old p_new dv srt by auto
qed

lemma repack_loop_inv:
  assumes "repack_loop wr gz uc a hs files st = Inr st'" and "0 < a"
    and "loop_inv uc a hs h0 st"
  shows "loop_inv uc a hs h0 st'"
  using assms
proof (induction files arbitrary: st)
  case Nil
  then show ?case by simp
next
  case (Cons f fs)
  from Cons.prems(1) obtain st1 where s1: "repack_step wr gz uc a hs f st = Inr st1"
    and s2: "repack_loop wr gz uc a hs fs st1 = Inr st'"
    by (auto simp: bind_err_Inr_iff)
  from repack_step_inv [OF s1 Cons.prems(2,3)] have "loop_inv uc a hs h0 st1" .
  from Cons.IH [OF s2 Cons.prems(2) this] show ?case .
qed

lemma repack_loop_stores:
  assumes "repack_loop wr gz uc a hs files (farc, dbr, log) = Inr (farc', dbr', log')"
    and "idx farc = length (buf farc)"
  shows "\<exists>new. log' = log @ new \<and> list_all2 (stores wr gz uc) new files"
  using assms
proof (induction files arbitrary: farc dbr log)
  case Nil
  then show ?case by simp
next
  case (Cons f fs)
  obtain name data where f: "f = (name, data)" by (cases f)
  from Cons.prems(1) obtain farc1 dbr1 log1 where
    s1: "repack_step wr gz uc a hs (name, data) (farc, dbr, log) = Inr (farc1, dbr1, log1)"
    and s2: "repack_loop wr gz uc a hs fs (farc1, dbr1, log1) = Inr (farc', dbr', log')"
    unfolding f by (auto simp: bind_err_Inr_iff)
  from repack_step_result [OF s1 Cons.prems(2)]
  obtain w where w: "log1 = log @ [w]" "stores wr gz uc w (name, data)"
    "idx farc1 = length (buf farc1)"
    by blast
  from Cons.IH [OF s2 w(3)] obtain new where
    "log' = log1 @ new" "list_all2 (stores wr gz uc) new fs" by blast
  with w f have "log' = log @ (w # new) \<and> list_all2 (stores wr gz uc) (w # new) (f # fs)"
    by simp
  then show ?case by blast
qed

lemma aligned_header_size_pad:
  "aligned_header_size a n = n + pad_len a n"
  by (simp add: aligned_header_size_def pad_len_def)

lemma pad_len_less: "0 < a \<Longrightarrow> pad_len a n < a"
  by (simp add: pad_len_def)

lemma length_entry_bytes:
  "length (entry_bytes uc w) = length (w_name_bytes w) + 1 + entry_size uc"
  by (simp add: entry_bytes_def entry_size_def)

lemma org_header_size_Nil: "org_header_size cp uc [] = Inr 12"
  by (simp add: org_header_size_def)

lemma org_header_size_Cons:
  "org_header_size cp uc (f # fs) =
     (case cp (fst f) of
        None \<Rightarrow> Inl EncodeError
      | Some bs \<Rightarrow>
          (case org_header_size cp uc fs of
             Inl e \<Rightarrow> Inl e
           | Inr n \<Rightarrow> Inr (length bs + 1 + entry_size uc + n)))"
  by (simp add: org_header_size_def split: option.splits)

lemma org_header_size_ge: "org_header_size cp uc files = Inr org \<Longrightarrow> 12 \<le> org"
  by (auto simp: org_header_size_def split: option.splits)

lemma length_table:
  assumes "list_all2 (stores wr gz uc) log files"
    and "\<forall>f \<in> set files. cp (fst f) = wr (fst f)"
  shows "org_header_size cp uc files
     = Inr (length (concat (map (entry_bytes uc) log)) + 12)"
  using assms
proof (induction log files rule: list_all2_induct)
  case Nil
  then show ?case by (simp add: org_header_size_Nil)
next
  case (Cons w log f files)
  from Cons.hyps(1) Cons.prems have "cp (fst f) = Some (w_name_bytes w)"
    by (simp add: stores_def)
  moreover from Cons have "org_header_size cp uc files
     = Inr (length (concat (map (entry_bytes uc) log)) + 12)"
    by simp
  ultimately show ?case
    by (simp add: org_header_size_Cons length_entry_bytes)
qed

lemma repack_log_shape:
  assumes rp: "repack_log cp wr gz files uc a = Inr (out, log)"
    and wr: "ascii_codec wr"
    and agree: "\<forall>f \<in> set files. cp (fst f) = wr (fst f)"
  shows "\<exists>org d. org_header_size cp uc files = Inr org
      \<and> 0 < a \<and> a < 4294967296 \<and> org - 8 < 4294967296
      \<and> out = header_bytes uc org a log @ replicate (pad_len a org) 0 @ d
      \<and> length (header_bytes uc org a log) = org
      \<and> a dvd length d
      \<and> (\<forall>w \<in> set log. fits uc w \<and> placed a (aligned_header_size a org) d w)
      \<and> sorted_wrt (\<lambda>w w'. w_end w \<le> w_offset w') log
      \<and> list_all2 (stores wr gz uc) log files"
proof -
  let ?magic = "if uc then ''FArC'' else ''FArc''"
  from rp obtain org where org: "org_header_size cp uc files = Inr org"
    by (auto simp: repack_log_def bind_err_Inr_iff)
  let ?hs = "aligned_header_size a org"
  let ?h0 = "encode ?magic @ uint32_be (org - 8) @ uint32_be a"
  let ?farc0 = "\<lparr>buf = ?h0, idx = length ?h0\<rparr>"
  have mg: "wr ?magic = Some (encode ?magic)"
    by (rule ascii_codecD [OF wr ascii_magic])
  from rp org have a: "0 < a"
    by (auto simp: repack_log_def bind_err_def split: if_splits)
  from rp org a mg obtain farc dbr where
    f1: "org - 8 < 4294967296" and f2: "a < 4294967296"
    and lp: "repack_loop wr gz uc a ?hs files (?farc0, BinaryReader [], []) = Inr (farc, dbr, log)"
    and sk: "seek_cur (size_c dbr) (extend (buffer dbr) (align a farc)) \<noteq> Inl OutOfBounds"
    and out: "out = buffer (extend (buffer dbr) (align a farc))"
    by (auto simp: repack_log_def Let_def bind_err_Inr_iff write_uint32_Inr_iff
        write_str_Inr_iff write_bytes_end BinaryReader_def write_bytes_def seek_cur_def
        seek_def buffer_def
        split: if_splits)
  have inv0: "loop_inv uc a ?hs ?h0 (?farc0, BinaryReader [], [])"
    by (simp add: loop_inv_def BinaryReader_def)
  from repack_loop_inv [OF lp a inv0]
  have i: "idx farc = length (buf farc)"
    "buf farc = ?h0 @ concat (map (entry_bytes uc) log)"
    "a dvd length (buf dbr)"
    "\<forall>w \<in> set log. fits uc w \<and> placed a ?hs (buf dbr) w"
    "sorted_wrt (\<lambda>w w'. w_end w \<le> w_offset w') log"
    by (simp_all add: loop_inv_def)
  from repack_loop_stores [OF lp] have st: "list_all2 (stores wr gz uc) log files"
    by auto
  have hb: "buf farc = header_bytes uc org a log"
    by (simp add: i(2) header_bytes_def)
  from length_table [OF st agree] org
  have "org = length (concat (map (entry_bytes uc) log)) + 12" by simp
  then have len: "length (header_bytes uc org a log) = org"
    by (cases uc) (simp_all add: header_bytes_def)
  have "out = header_bytes uc org a log @ replicate (pad_len a org) 0 @ buf dbr"
    using out hb len by (simp add: buffer_def extend_def align_def Let_def)
  with org a f1 f2 len i(3,4,5) st show ?thesis by blast
qed

lemma slice_placed:
  assumes "placed a hs d w" and "length h = hs"
  shows "slice (h @ d) (w_offset w) (length (w_stored w)) = w_stored w"
  using assms by (simp add: placed_def slice_def)

lemma length_padded_header:
  "length (header_bytes uc org a log) = org \<Longrightarrow>
     length (header_bytes uc org a log @ replicate (pad_len a org) 0)
       = aligned_header_size a org"
  by (simp add: aligned_header_size_pad)

lemma repack_log_slices:
  assumes rp: "repack_log cp wr gz files uc a = Inr (out, log)"
    and wr: "ascii_codec wr"
    and agree: "\<forall>f \<in> set files. cp (fst f) = wr (fst f)"
  shows "\<forall>w \<in> set log. slice out (w_offset w) (length (w_stored w)) = w_stored w"
proof -
  from repack_log_shape [OF rp wr agree] obtain org d where
    out: "out = header_bytes uc org a log @ replicate (pad_len a org) 0 @ d"
    and len: "length (header_bytes uc org a log) = org"
    and pl: "\<forall>w \<in> set log. fits uc w \<and> placed a (aligned_header_size a org) d w"
    by blast
  show ?thesis
  proof
    fix w assume "w \<in> set log"
    with pl have "placed a (aligned_header_size a org) d w" by blast
    from slice_placed [OF this length_padded_header [OF len]]
    show "slice out (w_offset w) (length (w_stored w)) = w_stored w"
      by (simp add: out)
  qed
qed

lemma drop_step: "drop i b = xs @ ys \<Longrightarrow> drop (i + length xs) b = ys"
  by (metis add.commute append_eq_conv_conj drop_drop)

lemma read_uint32_drop:
  assumes "n < 4294967296" and "drop i b = uint32_be n @ rest"
  shows "read_uint32 \<lparr>buf = b, idx = i\<rparr> = Inr (n, \<lparr>buf = b, idx = i + 4\<rparr>)"
proof -
  have "length (drop i b) = 4 + length rest" using assms(2) by simp
  then have le: "i + 4 \<le> length b" by simp
  have "take 4 (drop i b) = uint32_be n" using assms(2) by simp
  with le assms(1) show ?thesis
    by (simp add: read_uint32_def read_bytes_def bind_err_def be_nat_uint32_be)
qed

lemma read_str_drop:
  assumes "0 \<notin> set nb" and "drop i b = nb @ 0 # rest"
  shows "read_str \<lparr>buf = b, idx = i\<rparr> = Inr (decode nb, \<lparr>buf = b, idx = i + length nb + 1\<rparr>)"
  using assms by (simp add: read_str_def Let_def takeWhile_not_mem)

lemma read_entry_drop:
  assumes fit: "fits uc w" and nul: "0 \<notin> set (w_name_bytes w)"
    and d: "drop i b = entry_bytes uc w @ rest"
  shows "read_entry uc \<lparr>buf = b, idx = i\<rparr>
     = Inr (w_entry w, \<lparr>buf = b, idx = i + length (entry_bytes uc w)\<rparr>)"
proof -
  let ?n = "w_name_bytes w" and ?o = "w_offset w" and ?s = "length (w_stored w)"
    and ?r = "w_raw_size w"
  let ?tail = "(if uc then uint32_be ?r else []) @ rest"
  from fit have lt: "?o < 4294967296" "?s < 4294967296" "?r < 4294967296"
    by (simp_all add: fits_def)
  have d0: "drop i b = ?n @ 0 # (uint32_be ?o @ uint32_be ?s @ ?tail)"
    using d by (simp add: entry_bytes_def)
  have "drop i b = (?n @ [0]) @ (uint32_be ?o @ uint32_be ?s @ ?tail)"
    using d0 by simp
  from drop_step [OF this]
  have d1: "drop (i + length ?n + 1) b = uint32_be ?o @ (uint32_be ?s @ ?tail)"
    by (simp add: add.assoc)
  from drop_step [OF d1]
  have d2: "drop (i + length ?n + 1 + 4) b = uint32_be ?s @ ?tail"
    by simp
  from drop_step [OF d2]
  have d3: "drop (i + length ?n + 1 + 4 + 4) b = ?tail"
    by simp
  have s1: "read_str \<lparr>buf = b, idx = i\<rparr>
      = Inr (decode ?n, \<lparr>buf = b, idx = i + length ?n + 1\<rparr>)"
    by (rule read_str_drop [OF nul d0])
  have s2: "read_uint32 \<lparr>buf = b, idx = i + length ?n + 1\<rparr>
      = Inr (?o, \<lparr>buf = b, idx = i + length ?n + 1 + 4\<rparr>)"
    by (rule read_uint32_drop [OF lt(1) d1])
  have s3: "read_uint32 \<lparr>buf = b, idx = i + length ?n + 1 + 4\<rparr>
      = Inr (?s, \<lparr>buf = b, idx = i + length ?n + 1 + 4 + 4\<rparr>)"
    by (rule read_uint32_drop [OF lt(2) d2])
  show ?thesis
  proof (cases uc)
    case False
    then show ?thesis
      by (simp only: read_entry_def bind_err_def s1 s2 s3 sum.case prod.case if_False)
        (simp add: w_entry_def length_entry_bytes entry_size_def)
  next
    case True
    with d3 have d4: "drop (i + length ?n + 1 + 4 + 4) b = uint32_be ?r @ rest" by simp
    have s4: "read_uint32 \<lparr>buf = b, idx = i + length ?n + 1 + 4 + 4\<rparr>
        = Inr (?r, \<lparr>buf = b, idx = i + length ?n + 1 + 4 + 4 + 4\<rparr>)"
      by (rule read_uint32_drop [OF lt(3) d4])
    from True show ?thesis
      by (simp only: read_entry_def bind_err_def s1 s2 s3 s4 sum.case prod.case if_True)
        (simp add: w_entry_def length_entry_bytes entry_size_def)
  qed
qed

lemma read_entries_drop:
  assumes "\<forall>w \<in> set log. fits uc w \<and> 0 \<notin> set (w_name_bytes w)"
    and "drop i b = concat (map (entry_bytes uc) log) @ rest"
  shows "read_entries uc (i + length (concat (map (entry_bytes uc) log)))
           \<lparr>buf = b, idx = i\<rparr> = Inr (map w_entry log)"
  using assms
proof (induction log arbitrary: i)
  case Nil
  show ?case by (simp add: read_entries.simps pos_def)
next
  case (Cons w ws)
  let ?e = "entry_bytes uc w"
  let ?t = "concat (map (entry_bytes uc) ws)"
  from Cons.prems(1) have fw: "fits uc w" "0 \<notin> set (w_name_bytes w)"
    and rest: "\<forall>w \<in> set ws. fits uc w \<and> 0 \<notin> set (w_name_bytes w)"
    by simp_all
  from Cons.prems(2) have d: "drop i b = ?e @ (?t @ rest)" by simp
  have pos: "0 < length ?e" by (simp add: length_entry_bytes)
  have one: "read_entry uc \<lparr>buf = b, idx = i\<rparr>
      = Inr (w_entry w, \<lparr>buf = b, idx = i + length ?e\<rparr>)"
    by (rule read_entry_drop [OF fw d])
  have more: "read_entries uc (i + length ?e + length ?t) \<lparr>buf = b, idx = i + length ?e\<rparr>
      = Inr (map w_entry ws)"
    by (rule Cons.IH [OF rest drop_step [OF d]])
  have "read_entries uc (i + length ?e + length ?t) \<lparr>buf = b, idx = i\<rparr>
      = Inr (w_entry w # map w_entry ws)"
    using pos
    by (subst read_entries.simps) (simp only: pos_def cursor.simps one more sum.case prod.case, simp)
  then show ?case by (simp add: add.assoc)
qed

section \<open>Lemmas on the reader\<close>

lemma extract_entries_result:
  "extract_entries gunzip ic whole entries =
     (map (\<lambda>en. (fst en, the (decoded gunzip ic whole en)))
        (takeWhile (\<lambda>en. decoded gunzip ic whole en \<noteq> None) entries),
      if list_all (\<lambda>en. decoded gunzip ic whole en \<noteq> None) entries then None
      else Some DecompressionError)"
proof (induction entries)
  case Nil
  show ?case by simp
next
  case (Cons en entries)
  obtain name offset stored_size where en: "en = (name, offset, stored_size)"
    by (cases en) auto
  show ?case
  proof (cases "decoded gunzip ic whole en")
    case None
    then show ?thesis
      by (cases ic) (simp_all add: en decoded_def Let_def)
  next
    case (Some data)
    then show ?thesis
      using Cons.IH by (cases ic) (simp_all add: en decoded_def Let_def)
  qed
qed

lemma extract_entries_uncompressed:
  "extract_entries gunzip False whole entries =
     (map (\<lambda>(name, offset, stored_size). (name, slice whole offset stored_size)) entries, None)"
  by (induction entries) (auto simp: Let_def)

lemma length_slice:
  "length (slice whole offset stored_size) = min stored_size (length whole - offset)"
  by (simp add: slice_def)

lemma same_from_drop:
  assumes "same_from k c c'"
  shows "drop (idx c) (buf c) = drop (idx c') (buf c')"
proof -
  from assms have i: "idx c' = idx c" and k: "k \<le> idx c"
    and d: "drop k (buf c) = drop k (buf c')"
    by (simp_all add: same_from_def)
  have "drop (idx c) (buf c) = drop (idx c - k) (drop k (buf c))" using k by simp
  also have "\<dots> = drop (idx c - k) (drop k (buf c'))" by (simp only: d)
  also have "\<dots> = drop (idx c') (buf c')" using k i by simp
  finally show ?thesis .
qed

lemma same_from_step:
  "same_from k c c' \<Longrightarrow> same_from k (c\<lparr>idx := idx c + n\<rparr>) (c'\<lparr>idx := idx c' + n\<rparr>)"
  by (simp add: same_from_def)

lemma bind_err_rel:
  assumes "rel_sum (=) R m m'"
    and "\<And>x x'. R x x' \<Longrightarrow> rel_sum (=) S (f x) (f' x')"
  shows "rel_sum (=) S (bind_err m f) (bind_err m' f')"
  using assms by (cases m; cases m') (simp_all add: bind_err_def)

lemma read_bytes_rel:
  assumes "same_from k c c'"
  shows "rel_sum (=) (rel_prod (=) (same_from k)) (read_bytes n c) (read_bytes n c')"
  using same_from_drop [OF assms] same_from_step [OF assms, of n] assms
  by (simp add: read_bytes_def same_from_def)

lemma read_uint32_rel:
  assumes "same_from k c c'"
  shows "rel_sum (=) (rel_prod (=) (same_from k)) (read_uint32 c) (read_uint32 c')"
  unfolding read_uint32_def
  by (rule bind_err_rel [OF read_bytes_rel [OF assms]]) auto

lemma read_str_rel:
  assumes "same_from k c c'"
  shows "rel_sum (=) (rel_prod (=) (same_from k)) (read_str c) (read_str c')"
  using same_from_drop [OF assms] assms
  by (simp add: read_str_def Let_def same_from_def)

lemma read_entry_rel:
  assumes "same_from k c c'"
  shows "rel_sum (=) (rel_prod (=) (same_from k)) (read_entry uc c) (read_entry uc c')"
  unfolding read_entry_def
  apply (rule bind_err_rel [OF read_str_rel [OF assms]])
  apply clarsimp
  apply (rule bind_err_rel [OF read_uint32_rel])
   apply assumption
  apply clarsimp
  apply (rule bind_err_rel [OF read_uint32_rel])
   apply assumption
  apply clarsimp
  apply (rule bind_err_rel [OF read_uint32_rel])
   apply assumption
  apply clarsimp
  done

lemma read_entries_rel:
  "same_from k c c' \<Longrightarrow> read_entries uc hs c = read_entries uc hs c'"
proof (induction uc hs c arbitrary: c' rule: read_entries.induct)
  case (1 uc hs c)
  from "1.prems" have i: "idx c' = idx c" by (simp add: same_from_def)
  show ?case
  proof (cases "pos c < hs")
    case False
    with i show ?thesis by (simp add: read_entries.simps [of uc hs] pos_def)
  next
    case True
    note r = read_entry_rel [OF "1.prems", of uc]
    show ?thesis
    proof (cases "read_entry uc c")
      case (Inl e)
      with r have "read_entry uc c' = Inl e" by (cases "read_entry uc c'") simp_all
      with Inl True i show ?thesis
        by (simp add: read_entries.simps [of uc hs c] read_entries.simps [of uc hs c'] pos_def)
    next
      case (Inr x)
      obtain en c1 where x: "x = (en, c1)" by (cases x) auto
      from r Inr x obtain c1' where r': "read_entry uc c' = Inr (en, c1')"
        and s: "same_from k c1 c1'"
        by (cases "read_entry uc c'") auto
      from "1.IH" [OF True Inr x [symmetric] s]
      have "read_entries uc hs c1 = read_entries uc hs c1'" .
      with Inr x r' True i show ?thesis
        by (simp add: read_entries.simps [of uc hs c] read_entries.simps [of uc hs c'] pos_def)
    qed
  qed
qed

lemma parse_archive_align_ignored:
  assumes len: "length d = length d'" and pre: "take 8 d = take 8 d'"
    and post: "drop 12 d = drop 12 d'"
  shows "parse_archive d = parse_archive d'"
proof -
  have "take 4 (take 8 d) = take 4 (take 8 d')" by (simp only: pre)
  then have m: "take 4 d = take 4 d'" by simp
  have "drop 4 (take 8 d) = drop 4 (take 8 d')" by (simp only: pre)
  then have n: "take 4 (drop 4 d) = take 4 (drop 4 d')" by (simp add: drop_take)
  have "same_from 12 \<lparr>buf = d, idx = 12\<rparr> \<lparr>buf = d', idx = 12\<rparr>"
    using len post by (simp add: same_from_def)
  then have e: "\<And>uc hs. read_entries uc hs \<lparr>buf = d, idx = 12\<rparr>
      = read_entries uc hs \<lparr>buf = d', idx = 12\<rparr>"
    by (rule read_entries_rel)
  show ?thesis
    using len m n e
    by (auto simp: parse_archive_def BinaryReader_def read_str_n_def read_uint32_def
        read_bytes_def bind_err_def Let_def split: sum.splits)
qed

lemma slice_align_ignored:
  assumes pre: "take 8 d = take 8 d'" and post: "drop 12 d = drop 12 d'"
    and clear: "offset + stored_size \<le> 8 \<or> 12 \<le> offset \<or> stored_size = 0"
  shows "slice d offset stored_size = slice d' offset stored_size"
proof -
  consider "offset + stored_size \<le> 8" | "12 \<le> offset" | "stored_size = 0"
    using clear by blast
  then show ?thesis
  proof cases
    case 1
    have "take (stored_size + offset) (take 8 d) = take (stored_size + offset) (take 8 d')"
      by (simp only: pre)
    with 1 have "take (stored_size + offset) d = take (stored_size + offset) d'"
      by (simp add: min_def add.commute)
    then have "drop offset (take (stored_size + offset) d)
        = drop offset (take (stored_size + offset) d')"
      by simp
    then show ?thesis by (simp add: slice_def take_drop)
  next
    case 2
    have "drop (offset - 12) (drop 12 d) = drop (offset - 12) (drop 12 d')"
      by (simp only: post)
    with 2 have "drop offset d = drop offset d'" by simp
    then show ?thesis by (simp add: slice_def)
  next
    case 3
    then show ?thesis by (simp add: slice_def)
  qed
qed

lemma extract_entries_align_ignored:
  assumes pre: "take 8 d = take 8 d'" and post: "drop 12 d = drop 12 d'"
  shows "\<forall>(name, offset, stored_size) \<in> set entries.
            offset + stored_size \<le> 8 \<or> 12 \<le> offset \<or> stored_size = 0 \<Longrightarrow>
         extract_entries gunzip ic d entries = extract_entries gunzip ic d' entries"
proof (induction entries)
  case Nil
  show ?case by simp
next
  case (Cons en entries)
  obtain name offset stored_size where en: "en = (name, offset, stored_size)"
    by (cases en) auto
  from Cons.prems en
  have "offset + stored_size \<le> 8 \<or> 12 \<le> offset \<or> stored_size = 0" by simp
  from slice_align_ignored [OF pre post this]
  have s: "slice d offset stored_size = slice d' offset stored_size" .
  from Cons have "extract_entries gunzip ic d entries = extract_entries gunzip ic d' entries"
    by simp
  with s show ?case by (cases ic) (simp_all add: en Let_def split: option.splits)
qed

section \<open>Reading back what the writer wrote\<close>

lemma decode_magic:
  "decode (encode (if uc then ''FArC'' else ''FArc'')) = (if uc then ''FArC'' else ''FArc'')"
  by (rule decode_encode)

lemma parse_repacked:
  assumes rp: "repack_log cp wr gz files uc a = Inr (out, log)"
    and wr: "ascii_codec wr"
    and agree: "\<forall>f \<in> set files. cp (fst f) = wr (fst f)"
    and nul: "\<forall>w \<in> set log. 0 \<notin> set (w_name_bytes w)"
  shows "parse_archive out = Inr (uc, map w_entry log)"
proof -
  let ?magic = "if uc then ''FArC'' else ''FArc''"
  let ?table = "concat (map (entry_bytes uc) log)"
  from repack_log_shape [OF rp wr agree] obtain org d where
    org: "org_header_size cp uc files = Inr org"
    and a: "a < 4294967296"
    and lt: "org - 8 < 4294967296"
    and out: "out = header_bytes uc org a log @ replicate (pad_len a org) 0 @ d"
    and fp: "\<forall>w \<in> set log. fits uc w \<and> placed a (aligned_header_size a org) d w"
    and st: "list_all2 (stores wr gz uc) log files"
    by blast
  let ?rest = "replicate (pad_len a org) 0 @ d"
  have o0: "out = encode ?magic @ (uint32_be (org - 8) @ uint32_be a @ ?table @ ?rest)"
    by (simp add: out header_bytes_def)
  have l4: "length (encode ?magic) = 4" by simp
  have t4: "take 4 out = encode ?magic"
    by (subst o0, cases uc) simp_all
  have le: "4 \<le> length out"
    by (subst o0, cases uc) simp_all
  have r0: "read_str_n 4 (BinaryReader out) = Inr (?magic, \<lparr>buf = out, idx = 4\<rparr>)"
    using le t4 decode_magic [of uc]
    by (simp add: read_str_n_def read_bytes_def BinaryReader_def bind_err_def)
  have d4: "drop 4 out = uint32_be (org - 8) @ (uint32_be a @ ?table @ ?rest)"
    using drop_step [of 0 out "encode ?magic"] o0 l4 by simp
  have r1: "read_uint32 \<lparr>buf = out, idx = 4\<rparr> = Inr (org - 8, \<lparr>buf = out, idx = 4 + 4\<rparr>)"
    by (rule read_uint32_drop [OF lt d4])
  from drop_step [OF d4]
  have d8: "drop (4 + 4) out = uint32_be a @ (?table @ ?rest)" by simp
  have r2: "read_uint32 \<lparr>buf = out, idx = 4 + 4\<rparr> = Inr (a, \<lparr>buf = out, idx = 4 + 4 + 4\<rparr>)"
    by (rule read_uint32_drop [OF a d8])
  from drop_step [OF d8]
  have d12: "drop (4 + 4 + 4) out = ?table @ ?rest" by simp
  from fp nul have ok: "\<forall>w \<in> set log. fits uc w \<and> 0 \<notin> set (w_name_bytes w)" by blast
  from read_entries_drop [OF ok d12]
  have r3: "read_entries uc (4 + 4 + 4 + length ?table) \<lparr>buf = out, idx = 4 + 4 + 4\<rparr>
      = Inr (map w_entry log)" .
  from length_table [OF st agree] org
  have hs: "org - 8 + 8 = 4 + 4 + 4 + length ?table" by simp
  have m: "\<not> (?magic \<noteq> ''FArc'' \<and> ?magic \<noteq> ''FArC'')" "(?magic = ''FArC'') = uc"
    by simp_all
  show ?thesis
    by (simp only: parse_archive_def Let_def bind_err_def r0 r1 r2 hs r3 m sum.case prod.case
        if_False) (cases uc; simp)
qed

lemma stores_ascii:
  assumes "list_all2 (stores wr gz uc) log files" and "ascii_codec wr"
    and "\<forall>f \<in> set files. ascii (fst f)"
  shows "\<forall>w \<in> set log. 0 \<notin> set (w_name_bytes w)"
  using assms
proof (induction rule: list_all2_induct)
  case Nil
  show ?case by simp
next
  case (Cons w log f files)
  from Cons.prems have af: "ascii (fst f)" by simp
  from Cons.hyps(1) ascii_codecD [OF Cons.prems(1) af]
  have "w_name_bytes w = encode (fst f)" by (simp add: stores_def)
  with ascii_no_null [OF af] Cons show ?case by simp
qed

lemma injected_decodes:
  assumes sg: "standard_gzip gz gunzip nb data"
    and wn: "wr name = Some nb"
    and wg: "write_gzip_name wr name (gz data) = Inr s"
  shows "gunzip s = Some data"
proof -
  from sg have l: "10 \<le> length (gz data)" and f: "gz data ! 3 = 0"
    and g: "gunzip (gz data) = Some data"
    and n: "gunzip (take 3 (gz data) @ [8] @ take 5 (drop 4 (gz data)) @ [3] @ nb @ [0]
                @ drop 10 (gz data)) = gunzip (gz data)"
    by (simp_all add: standard_gzip_def)
  from write_gzip_name_layout [where wr = wr and name = name, OF l wn] wg f
  have "s = take 3 (gz data) @ [8] @ take 5 (drop 4 (gz data)) @ [3] @ nb @ [0]
                @ drop 10 (gz data)"
    by simp
  with n g show ?thesis by simp
qed

lemma extract_repacked:
  assumes "list_all2 (stores wr gz uc) log files"
    and "\<forall>w \<in> set log. slice out (w_offset w) (length (w_stored w)) = w_stored w"
    and "ascii_codec wr"
    and "\<forall>f \<in> set files. ascii (fst f)"
    and "uc \<longrightarrow> (\<forall>f \<in> set files. standard_gzip gz gunzip (encode (fst f)) (snd f))"
  shows "extract_entries gunzip uc out (map w_entry log) = (files, None)"
  using assms
proof (induction rule: list_all2_induct)
  case Nil
  show ?case by simp
next
  case (Cons w log f files)
  then have ih: "extract_entries gunzip uc out (map w_entry log) = (files, None)" by simp
  from Cons.prems(1) have s: "slice out (w_offset w) (length (w_stored w)) = w_stored w"
    by simp
  from Cons.prems(3) have af: "ascii (fst f)" by simp
  note wn = ascii_codecD [OF Cons.prems(2) af]
  from Cons.hyps(1) wn have "w_name_bytes w = encode (fst f)" by (simp add: stores_def)
  then have n: "w_entry w = (fst f, w_offset w, length (w_stored w))"
    by (simp add: w_entry_def)
  show ?case
  proof (cases uc)
    case False
    with Cons.hyps(1) have "w_stored w = snd f" by (simp add: stores_def)
    with False ih s n show ?thesis by (simp add: Let_def)
  next
    case True
    with Cons.hyps(1) have wg: "write_gzip_name wr (fst f) (gz (snd f)) = Inr (w_stored w)"
      by (simp add: stores_def)
    from True Cons.prems(4) have "standard_gzip gz gunzip (encode (fst f)) (snd f)" by simp
    from injected_decodes [OF this wn wg] have "gunzip (w_stored w) = Some (snd f)" .
    with True ih s n show ?thesis by (simp add: Let_def)
  qed
qed

section \<open>When the writer succeeds\<close>

lemma repack_step_succeeds:
  assumes a: "0 < a" and e: "idx farc = length (buf farc)"
    and n: "wr name = Some nb"
    and z: "uc \<longrightarrow> 10 \<le> length (gz data)"
    and r: "length data < 4294967296"
    and b: "hs + length (buf dbr) + stored_length wr gz uc (name, data) < 4294967296"
  shows "\<exists>farc' dbr' log'.
           repack_step wr gz uc a hs (name, data) (farc, dbr, log) = Inr (farc', dbr', log')
           \<and> idx farc' = length (buf farc')
           \<and> length (buf dbr') \<le> length (buf dbr) + stored_length wr gz uc (name, data) + a"
proof -
  have ex: "\<exists>st'. repack_step wr gz uc a hs (name, data) (farc, dbr, log) = Inr st'"
  proof (cases uc)
    case False
    with r b n show ?thesis
      by (simp add: repack_step_def bind_err_def write_uint32_def size_c_def write_str_def
          stored_length_def Let_def)
  next
    case True
    with z have "10 \<le> length (gz data)" by simp
    from write_gzip_name_layout [where wr = wr and name = name, OF this n]
    have s: "write_gzip_name wr name (gz data) =
        Inr (take 3 (gz data) @ [gz data ! 3 OR 8] @ take 5 (drop 4 (gz data)) @ [3] @ nb @ [0]
             @ drop 10 (gz data))" .
    from True r b n \<open>10 \<le> length (gz data)\<close> show ?thesis
      by (simp add: s repack_step_def bind_err_def write_uint32_def size_c_def write_str_def
          stored_length_def Let_def)
  qed
  then obtain farc' dbr' log' where
    st: "repack_step wr gz uc a hs (name, data) (farc, dbr, log) = Inr (farc', dbr', log')"
    by (metis prod_cases3)
  from repack_step_result [OF st e] obtain w where
    w: "stores wr gz uc w (name, data)" "idx farc' = length (buf farc')"
       "buf dbr' = buf dbr @ w_stored w
            @ replicate (pad_len a (length (buf dbr) + length (w_stored w))) 0"
    by blast
  have len: "length (w_stored w) = stored_length wr gz uc (name, data)"
  proof (cases uc)
    case False
    with w(1) show ?thesis by (simp add: stores_def stored_length_def)
  next
    case True
    with z have l: "10 \<le> length (gz data)" by simp
    let ?x = "take 3 (gz data) @ [gz data ! 3 OR 8] @ take 5 (drop 4 (gz data)) @ [3] @ nb
               @ [0] @ drop 10 (gz data)"
    from write_gzip_name_layout [where wr = wr and name = name, OF l n] True w(1)
    have "w_stored w = ?x" by (simp add: stores_def)
    then have "length (w_stored w) = length ?x" by simp
    also have "\<dots> = length (gz data) + length nb + 1" using l by simp
    finally show ?thesis using True n by (simp add: stored_length_def)
  qed
  have "pad_len a (length (buf dbr) + length (w_stored w)) < a"
    by (rule pad_len_less [OF a])
  with len have "length (buf dbr') \<le> length (buf dbr) + stored_length wr gz uc (name, data) + a"
    by (simp add: w(3))
  with st w(2) show ?thesis by blast
qed

lemma repack_loop_succeeds:
  assumes a: "0 < a"
  shows "idx farc = length (buf farc) \<Longrightarrow>
     \<forall>f \<in> set files. wr (fst f) \<noteq> None \<Longrightarrow>
     uc \<longrightarrow> (\<forall>f \<in> set files. 10 \<le> length (gz (snd f))) \<Longrightarrow>
     \<forall>f \<in> set files. length (snd f) < 4294967296 \<Longrightarrow>
     hs + length (buf dbr) + sum_list (map (\<lambda>f. stored_length wr gz uc f + a) files)
        < 4294967296 \<Longrightarrow>
     \<exists>st'. repack_loop wr gz uc a hs files (farc, dbr, log) = Inr st'"
proof (induction files arbitrary: farc dbr log)
  case Nil
  show ?case by simp
next
  case (Cons f fs)
  obtain name data where f: "f = (name, data)" by (cases f)
  from Cons.prems(2) f obtain nb where n: "wr name = Some nb" by auto
  from Cons.prems(3) f have z: "uc \<longrightarrow> 10 \<le> length (gz data)" by simp
  from Cons.prems(4) f have r: "length data < 4294967296" by simp
  from Cons.prems(5) f
  have b: "hs + length (buf dbr) + stored_length wr gz uc (name, data) < 4294967296"
    by simp
  from repack_step_succeeds [OF a Cons.prems(1) n z r b, of log]
  obtain farc' dbr' log' where
    st: "repack_step wr gz uc a hs (name, data) (farc, dbr, log) = Inr (farc', dbr', log')"
    and e': "idx farc' = length (buf farc')"
    and l': "length (buf dbr') \<le> length (buf dbr) + stored_length wr gz uc (name, data) + a"
    by blast
  from Cons.prems(2) have n': "\<forall>f \<in> set fs. wr (fst f) \<noteq> None" by simp
  from Cons.prems(3) have z': "uc \<longrightarrow> (\<forall>f \<in> set fs. 10 \<le> length (gz (snd f)))" by simp
  from Cons.prems(4) have r': "\<forall>f \<in> set fs. length (snd f) < 4294967296" by simp
  from Cons.prems(5) l' f
  have b': "hs + length (buf dbr') + sum_list (map (\<lambda>f. stored_length wr gz uc f + a) fs)
        < 4294967296"
    by simp
  from Cons.IH [OF e' n' z' r' b', of log']
  obtain st' where "repack_loop wr gz uc a hs fs (farc', dbr', log') = Inr st'" by blast
  with st f have "repack_loop wr gz uc a hs (f # fs) (farc, dbr, log) = Inr st'"
    by (simp add: bind_err_def)
  then show ?case by blast
qed

lemma aligned_header_size_le: "0 < a \<Longrightarrow> aligned_header_size a n \<le> n + a"
  using pad_len_less [of a n] by (simp add: aligned_header_size_pad)

lemma repack_log_succeeds:
  assumes a: "0 < a"
    and wr: "ascii_codec wr"
    and n: "\<forall>f \<in> set files. wr (fst f) \<noteq> None"
    and org: "org_header_size cp uc files = Inr org"
    and z: "uc \<longrightarrow> (\<forall>f \<in> set files. 10 \<le> length (gz (snd f)))"
    and r: "\<forall>f \<in> set files. length (snd f) < 4294967296"
    and b: "org + a + sum_list (map (\<lambda>f. stored_length wr gz uc f + a) files) < 4294967296"
  shows "\<exists>out log. repack_log cp wr gz files uc a = Inr (out, log)"
proof -
  let ?hs = "aligned_header_size a org"
  let ?magic = "if uc then ''FArC'' else ''FArc''"
  let ?f0 = "\<lparr>buf = encode ?magic @ uint32_be (org - 8) @ uint32_be a, idx = 12\<rparr>"
  from b have o8: "org - 8 < 4294967296" and a32: "a < 4294967296" by simp_all
  have e0: "idx ?f0 = length (buf ?f0)" by simp
  have b0: "?hs + length (buf (BinaryReader []))
      + sum_list (map (\<lambda>f. stored_length wr gz uc f + a) files) < 4294967296"
    using aligned_header_size_le [OF a, of org] b by (simp add: BinaryReader_def)
  from repack_loop_succeeds [OF a e0 n z r b0, of "[]"]
  obtain st' where lp: "repack_loop wr gz uc a ?hs files (?f0, BinaryReader [], []) = Inr st'"
    by blast
  obtain farc' dbr' log' where st': "st' = (farc', dbr', log')" by (cases st')
  have "loop_inv uc a ?hs (encode ?magic @ uint32_be (org - 8) @ uint32_be a)
          (?f0, BinaryReader [], [])"
    by (simp add: loop_inv_def BinaryReader_def)
  from repack_loop_inv [OF lp a this] st'
  have e': "idx farc' = length (buf farc')" by (simp add: loop_inv_def)
  have hd: "write_str wr ?magic False (BinaryReader []) = Inr \<lparr>buf = encode ?magic, idx = 4\<rparr>"
    using ascii_codecD [OF wr ascii_magic, of uc]
    by (simp add: write_str_def write_bytes_def BinaryReader_def)
  have w1: "write_uint32 (org - 8) \<lparr>buf = encode ?magic, idx = 4\<rparr>
      = Inr \<lparr>buf = encode ?magic @ uint32_be (org - 8), idx = 8\<rparr>"
    using o8 by (simp add: write_uint32_def write_bytes_def)
  have w2: "write_uint32 a \<lparr>buf = encode ?magic @ uint32_be (org - 8), idx = 8\<rparr> = Inr ?f0"
    using a32 by (simp add: write_uint32_def write_bytes_def)
  have sk: "\<exists>c. seek_cur (size_c dbr') (extend (buffer dbr') (align a farc')) = Inr c"
    using e' by (simp add: seek_cur_def seek_def size_c_def extend_def align_def buffer_def
        Let_def)
  then obtain c where c: "seek_cur (size_c dbr') (extend (buffer dbr') (align a farc')) = Inr c"
    by blast
  have "repack_log cp wr gz files uc a = Inr (buffer c, log')"
    using a lp st' c
    by (simp add: repack_log_def Let_def org hd w1 w2 bind_err_def)
  then show ?thesis by blast
qed

section \<open>The worked examples, evaluated\<close>

lemmas reader_defs = parse_archive_def BinaryReader_def read_str_n_def read_bytes_def
  bind_err_def decode_def read_uint32_def read_entries.simps read_entry_def read_str_def
  pos_def Let_def uint32_be_def char_of_def bit_0

lemmas writer_defs = repack_log_def bind_err_def org_header_size_def entry_size_def
  aligned_header_size_def BinaryReader_def write_str_def write_bytes_def write_uint32_def
  uint32_be_def repack_step_def size_c_def extend_def align_def pad_len_def encode_def
  seek_cur_def seek_def buffer_def Let_def example_cp932_def example_default_codec_def
  ascii_def kana_a_def kana_aa_def

lemma ascii_example_cp932: "ascii_codec example_cp932"
  by (simp add: ascii_codec_def example_cp932_def)

lemma ascii_example_default_codec: "ascii_codec example_default_codec"
  by (simp add: ascii_codec_def example_default_codec_def)

lemma example_repack:
  "repack_log example_cp932 example_default_codec example_gzip example_files False 16
     = Inr (example_archive, example_log)"
  by (simp add: writer_defs example_files_def example_archive_def example_log_def)

lemma repack_plain_example:
  "repack example_cp932 example_default_codec example_gzip example_files False 16
     = Inr example_archive"
  by (simp add: repack_def example_repack bind_err_def)

lemma parse_example:
  "parse_archive example_archive = Inr (False, [(''a.txt'', 48, 5), (''b'', 64, 3)])"
  by (simp add: example_archive_def reader_defs)

lemma unpack_example: "unpack g example_archive = (example_files, None)"
  by (simp add: unpack_def parse_example)
    (simp add: example_archive_def example_files_def slice_def)

lemma parse_compressed:
  "parse_archive compressed_archive = Inr (True, [(''a.txt'', 32, 31)])"
  by (simp add: compressed_archive_def gzip_hello_named_def reader_defs)

lemma injected_hello:
  "write_gzip_name example_default_codec ''a.txt'' gzip_hello = Inr gzip_hello_named"
  by (simp add: write_gzip_name_def BinaryReader_def seek_def bind_err_def read_uint8_def
      write_uint8_def write_bytes_def pos_def buffer_def write_str_def Let_def encode_def
      example_default_codec_def ascii_def gzip_hello_def gzip_hello_named_def)

lemma repack_compressed_example:
  "repack example_cp932 example_default_codec example_gzip [(''a.txt'', hello)] True 16
     = Inr compressed_archive"
  by (simp add: repack_def writer_defs example_gzip_def injected_hello compressed_archive_def
      gzip_hello_named_def hello_def numeral_2_eq_2)

lemma parse_spec_example: "parse_archive spec_example_archive = Inr (False, [])"
  by (simp add: spec_example_archive_def hello_def reader_defs)

lemma parse_single: "parse_archive single_archive = Inr (False, [(''a.txt'', 26, 5)])"
  by (simp add: single_archive_def hello_def reader_defs)

lemma repack_single:
  "repack example_cp932 example_default_codec gz [(''a.txt'', hello)] False 1
     = Inr single_archive"
  by (simp add: repack_def writer_defs single_archive_def hello_def)

lemma parse_partial:
  "parse_archive partial_archive = Inr (True, [(''a.txt'', 44, 31), (''b'', 0, 4)])"
  by (simp add: partial_archive_def gzip_hello_named_def reader_defs)

lemma decoded_partial:
  "decoded example_gunzip True partial_archive (''a.txt'', 44, 31) = Some hello"
  "decoded example_gunzip True partial_archive (''b'', 0, 4) = None"
  by (simp_all add: decoded_def slice_def partial_archive_def example_gunzip_def
      gzip_hello_named_def gzip_hello_def)

lemma parse_over: "parse_archive over_archive = Inr (False, [(''a.txt'', 26, 100)])"
  by (simp add: over_archive_def hello_def reader_defs)

lemma parse_align: "parse_archive (align_archive b) = Inr (False, [(''a'', 8, 4)])"
  by (simp add: align_archive_def reader_defs)

lemma parse_undecodable:
  "parse_archive undecodable_archive = Inr (True, [(''a'', 0, 4)])"
  by (simp add: undecodable_archive_def reader_defs)

lemma parse_overlapping:
  "parse_archive overlapping_archive = Inr (False, [(''a'', 20, 8), (''a'', 18, 4)])"
  by (simp add: overlapping_archive_def reader_defs)

lemma parse_shared:
  "parse_archive shared_archive = Inr (True, [(''a'', 40, 31), (''a'', 40, 31)])"
  by (simp add: shared_archive_def gzip_hello_named_def reader_defs)

lemma slice_shared: "slice shared_archive 40 31 = gzip_hello_named"
  by (simp add: shared_archive_def slice_def gzip_hello_named_def)

lemma gunzip_named: "example_gunzip gzip_hello_named = Some hello"
  by (simp add: example_gunzip_def)

lemma gunzip_magic: "example_gunzip [70, 65, 114, 67] = None"
  by (simp add: example_gunzip_def gzip_hello_named_def gzip_hello_def)

lemma gunzip_plain: "example_gunzip gzip_hello = Some hello"
  by (simp add: example_gunzip_def)

lemma repack_kana:
  "repack_log example_cp932 example_default_codec example_gzip [(kana_a, [120])] False 1
     = Inr (kana_archive, kana_log)"
  by (simp add: writer_defs kana_archive_def kana_log_def)

lemma repack_kana_aa:
  "repack example_cp932 example_default_codec example_gzip [(kana_aa, [120])] False 1
     = Inr kana_aa_archive"
  by (simp add: repack_def writer_defs kana_aa_archive_def)

lemma parse_kana_aa:
  "parse_archive kana_aa_archive = Inr (False, [(kana_aa_misread, 25, 1)])"
  by (simp add: kana_aa_archive_def kana_aa_misread_def reader_defs)

lemma injected_kana:
  "write_gzip_name example_default_codec kana_a gzip_hello = Inr gzip_hello_kana"
  by (simp add: write_gzip_name_def BinaryReader_def seek_def bind_err_def read_uint8_def
      write_uint8_def write_bytes_def pos_def buffer_def write_str_def Let_def encode_def
      example_default_codec_def ascii_def kana_a_def gzip_hello_def gzip_hello_kana_def)

section \<open>Round trip\<close>

text \<open>
  Claim C1, amended. Take a list of files whose names consist of ASCII characters other
  than the null character. Then for every alignment and either compression setting,
  \<^verbatim>\<open>unpack\<close> of any archive that \<^verbatim>\<open>repack\<close> produces for them ends without an
  error and returns exactly the original list: the same names, the same contents, the
  same order. And \<^verbatim>\<open>repack\<close> does produce an archive when the alignment is at least
  1, every file is shorter than \<open>2 ^ 32\<close> bytes, and the header size, the alignment
  and, for every file, its stored length and the alignment add up to less than
  \<open>2 ^ 32\<close>. What is taken from the libraries: both encoders turn a name of ASCII
  characters into its ASCII bytes, and with compression \<^verbatim>\<open>gzip.compress\<close> and
  \<^verbatim>\<open>gzip.decompress\<close> are as \<open>standard_gzip\<close> says for each file. Without the
  conditions the round trip fails, as \<open>round_trip_fails\<close> shows.
\<close>

theorem repack_unpack_round_trip:
  assumes "ascii_codec cp932" and "ascii_codec default_codec"
    and "\<forall>(name, data) \<in> set files. ascii name"
    and "uc \<longrightarrow> (\<forall>(name, data) \<in> set files.
           standard_gzip gz gunzip (encode name) data)"
  shows "(\<forall>out. repack cp932 default_codec gz files uc a = Inr out
            \<longrightarrow> unpack gunzip out = (files, None))
     \<and> (1 \<le> a
        \<and> (\<forall>(name, data) \<in> set files. length data < 4294967296)
        \<and> (\<exists>org. org_header_size cp932 uc files = Inr org
              \<and> org + a + sum_list (map (\<lambda>f. stored_length default_codec gz uc f + a) files)
                  < 4294967296)
        \<longrightarrow> (\<exists>out. repack cp932 default_codec gz files uc a = Inr out
                   \<and> unpack gunzip out = (files, None)))"
proof -
  from assms(3) have names: "\<forall>f \<in> set files. ascii (fst f)" by auto
  from assms(4) have gz: "uc \<longrightarrow> (\<forall>f \<in> set files.
           standard_gzip gz gunzip (encode (fst f)) (snd f))"
    by auto
  have agree: "\<forall>f \<in> set files. cp932 (fst f) = default_codec (fst f)"
    using names ascii_codecD [OF assms(1)] ascii_codecD [OF assms(2)] by simp
  have ret: "unpack gunzip out = (files, None)"
    if "repack cp932 default_codec gz files uc a = Inr out" for out
  proof -
    from that obtain log where
      rp: "repack_log cp932 default_codec gz files uc a = Inr (out, log)"
      by (auto simp: repack_def bind_err_Inr_iff)
    from repack_log_shape [OF rp assms(2) agree]
    have st: "list_all2 (stores default_codec gz uc) log files" by blast
    note nul = stores_ascii [OF st assms(2) names]
    note sl = repack_log_slices [OF rp assms(2) agree]
    have "extract_entries gunzip uc out (map w_entry log) = (files, None)"
      by (rule extract_repacked [OF st sl assms(2) names gz])
    then show ?thesis
      by (simp add: unpack_def parse_repacked [OF rp assms(2) agree nul])
  qed
  have there: "\<exists>out. repack cp932 default_codec gz files uc a = Inr out
                 \<and> unpack gunzip out = (files, None)"
    if a: "1 \<le> a"
      and r: "\<forall>(name, data) \<in> set files. length data < 4294967296"
      and b: "\<exists>org. org_header_size cp932 uc files = Inr org
              \<and> org + a + sum_list (map (\<lambda>f. stored_length default_codec gz uc f + a) files)
                  < 4294967296"
  proof -
    from a have a0: "0 < a" by simp
    from b obtain org where org: "org_header_size cp932 uc files = Inr org"
      and bd: "org + a + sum_list (map (\<lambda>f. stored_length default_codec gz uc f + a) files)
                  < 4294967296"
      by blast
    from names ascii_codecD [OF assms(2)]
    have n: "\<forall>f \<in> set files. default_codec (fst f) \<noteq> None" by simp
    from gz have z: "uc \<longrightarrow> (\<forall>f \<in> set files. 10 \<le> length (gz (snd f)))"
      by (simp add: standard_gzip_def)
    from r have r': "\<forall>f \<in> set files. length (snd f) < 4294967296" by auto
    from repack_log_succeeds [OF a0 assms(2) n org z r' bd] obtain out log where
      "repack_log cp932 default_codec gz files uc a = Inr (out, log)" by blast
    then have "repack cp932 default_codec gz files uc a = Inr out"
      by (simp add: repack_def bind_err_def)
    with ret show ?thesis by blast
  qed
  from ret there show ?thesis by blast
qed

theorem repack_unpack_round_trip_witness:
  "ascii_codec example_cp932 \<and> ascii_codec example_default_codec
   \<and> ascii ''a.txt''
   \<and> standard_gzip example_gzip example_gunzip (encode ''a.txt'') hello
   \<and> length hello = 5
   \<and> org_header_size example_cp932 True [(''a.txt'', hello)] = Inr 30
   \<and> 30 + 16 + sum_list (map (\<lambda>f. stored_length example_default_codec example_gzip True f + 16)
                            [(''a.txt'', hello)]) = (93 :: nat)
   \<and> repack example_cp932 example_default_codec example_gzip [(''a.txt'', hello)] True 16
       = Inr compressed_archive
   \<and> unpack example_gunzip compressed_archive = ([(''a.txt'', hello)], None)
   \<and> repack example_cp932 example_default_codec example_gzip example_files False 16
       = Inr example_archive
   \<and> unpack example_gunzip example_archive = (example_files, None)"
proof -
  have 1: "ascii ''a.txt''" by (simp add: ascii_def)
  have 2: "standard_gzip example_gzip example_gunzip (encode ''a.txt'') hello"
    by (simp add: standard_gzip_def example_gzip_def example_gunzip_def gzip_hello_def
        gzip_hello_named_def encode_def)
  have 3: "length hello = 5" by (simp add: hello_def)
  have 4: "org_header_size example_cp932 True [(''a.txt'', hello)] = Inr 30"
    by (simp add: org_header_size_def entry_size_def example_cp932_def ascii_def)
  have 5: "30 + 16 + sum_list (map (\<lambda>f. stored_length example_default_codec example_gzip True f
                + 16) [(''a.txt'', hello)]) = (93 :: nat)"
    by (simp add: stored_length_def example_default_codec_def ascii_def example_gzip_def
        gzip_hello_def)
  from repack_unpack_round_trip [OF ascii_example_cp932 ascii_example_default_codec,
      of "[(''a.txt'', hello)]" True example_gzip example_gunzip 16]
    1 2 repack_compressed_example
  have 6: "unpack example_gunzip compressed_archive = ([(''a.txt'', hello)], None)"
    by simp
  have "\<forall>(name, data) \<in> set example_files. ascii name"
    by (simp add: example_files_def ascii_def)
  from repack_unpack_round_trip [OF ascii_example_cp932 ascii_example_default_codec this,
      of False example_gzip example_gunzip 16]
    repack_plain_example
  have 7: "unpack example_gunzip example_archive = (example_files, None)"
    by simp
  from 1 2 3 4 5 6 7 ascii_example_cp932 ascii_example_default_codec
    repack_compressed_example repack_plain_example
  show ?thesis by simp
qed

text \<open>An alignment of \<open>2 ^ 32\<close> is at least 1 and gives no archive at all: the
  alignment field cannot hold it. The name of two hiragana letters is sized in the code
  page (4 bytes) and written in UTF-8 (6 bytes): the table ends behind the place that the
  header size field and the offset name, and \<^verbatim>\<open>unpack\<close> returns another name and
  another content.\<close>

theorem round_trip_fails:
  "repack example_cp932 example_default_codec example_gzip [] False 4294967296
     = Inl ValueRange
   \<and> repack example_cp932 example_default_codec example_gzip [(kana_aa, [120])] False 1
       = Inr kana_aa_archive
   \<and> unpack example_gunzip kana_aa_archive = ([(kana_aa_misread, [0])], None)"
proof -
  have 1: "repack example_cp932 example_default_codec example_gzip [] False 4294967296
      = Inl ValueRange"
    by (simp add: repack_def writer_defs)
  have 3: "unpack example_gunzip kana_aa_archive = ([(kana_aa_misread, [0])], None)"
    by (simp add: unpack_def parse_kana_aa) (simp add: kana_aa_archive_def slice_def)
  from 1 repack_kana_aa 3 show ?thesis by simp
qed

section \<open>The example of the specification\<close>

text \<open>
  Claim C2, amended. Packing the single file \<^verbatim>\<open>a.txt\<close> with the content
  \<^verbatim>\<open>b"hello"\<close>, compression off, alignment 1, produces exactly the bytes
  \<^verbatim>\<open>b"FArc" + uint32_be(26-8) + uint32_be(1) + b"a.txt\x00" + uint32_be(26) +
  uint32_be(5) + b"hello"\<close>: the true header boundary is 26, the payload starts at
  offset 26; and unpacking that output returns the one file \<^verbatim>\<open>a.txt\<close> with the
  content \<^verbatim>\<open>b"hello"\<close>. The bytes that the claim gives, with \<^verbatim>\<open>12-8\<close> and 20 in
  place of \<^verbatim>\<open>26-8\<close> and 26, are not the output, and unpacking them returns no file.
\<close>

theorem repack_example_bytes:
  "repack example_cp932 example_default_codec gz [(''a.txt'', hello)] False 1
     = Inr single_archive
   \<and> single_archive =
       [70, 65, 114, 99] @ uint32_be (26 - 8) @ uint32_be 1
         @ [97, 46, 116, 120, 116, 0] @ uint32_be 26 @ uint32_be 5 @ hello
   \<and> unpack gunzip single_archive = ([(''a.txt'', hello)], None)"
proof -
  have 2: "unpack gunzip single_archive = ([(''a.txt'', hello)], None)"
    by (simp add: unpack_def parse_single) (simp add: single_archive_def slice_def hello_def)
  have 3: "single_archive =
       [70, 65, 114, 99] @ uint32_be (26 - 8) @ uint32_be 1
         @ [97, 46, 116, 120, 116, 0] @ uint32_be 26 @ uint32_be 5 @ hello"
    by (simp add: single_archive_def)
  from repack_single [of gz] 2 3 show ?thesis by (simp only: simp_thms)
qed

theorem spec_example_differs:
  "repack example_cp932 example_default_codec example_gzip [(''a.txt'', hello)] False 1
     = Inr single_archive
   \<and> single_archive \<noteq> spec_example_archive
   \<and> unpack example_gunzip spec_example_archive = ([], None)"
proof -
  have 2: "single_archive \<noteq> spec_example_archive"
    by (simp add: single_archive_def spec_example_archive_def uint32_be_def)
  have 3: "unpack example_gunzip spec_example_archive = ([], None)"
    by (simp add: unpack_def parse_spec_example)
  from repack_single [of example_gzip] 2 3 show ?thesis by simp
qed

section \<open>The header size field\<close>

text \<open>
  Claim C3 says that in every archive that \<^verbatim>\<open>repack\<close> produces the header size
  field plus 8 is the true header boundary, the place where the entry table ends. The
  code breaks it for a name that the code page and UTF-8 encode in different lengths. For
  the one file of the name \<open>kana_a\<close> (2 bytes in the code page, 3 in UTF-8) with the
  content \<^verbatim>\<open>b"x"\<close>, without compression at an alignment of 1, the field holds 15, so
  field plus 8 is 23, and the header as written, with the table, is 24 bytes long.
\<close>

theorem repack_kana_header_size_field:
  "repack_log example_cp932 example_default_codec example_gzip [(kana_a, [120])] False 1
     = Inr (kana_archive, kana_log)
   \<and> org_header_size example_cp932 False [(kana_a, [120])] = Inr 23
   \<and> be_nat (slice kana_archive 4 4) + 8 = 23
   \<and> take 24 kana_archive = header_bytes False 23 1 kana_log
   \<and> length (header_bytes False 23 1 kana_log) = 24"
proof -
  have 1: "org_header_size example_cp932 False [(kana_a, [120])] = Inr 23"
    by (simp add: org_header_size_def entry_size_def example_cp932_def kana_a_def encode_def)
  have 2: "be_nat (slice kana_archive 4 4) + 8 = 23"
    by (simp add: kana_archive_def slice_def)
  have 3: "take 24 kana_archive = header_bytes False 23 1 kana_log"
    by (simp add: kana_archive_def header_bytes_def entry_bytes_def kana_log_def encode_def
        uint32_be_def)
  have 4: "length (header_bytes False 23 1 kana_log) = 24"
    by (simp add: header_bytes_def entry_bytes_def kana_log_def)
  from repack_kana 1 2 3 4 show ?thesis by simp
qed

section \<open>Payloads and the offsets of the table\<close>

text \<open>
  Claim C4 says that in every archive that \<^verbatim>\<open>repack\<close> produces the bytes of the
  output from an entry's offset on, for the stored size, are the entry's payload. The code
  breaks it for a name that the code page and UTF-8 encode in different lengths. For the
  one file of the name \<open>kana_a\<close> with the content \<^verbatim>\<open>b"x"\<close>, without compression at
  an alignment of 1, the table gives the offset 23 and the stored size 1; the byte at 23
  is the last byte of the size field, and the payload lies at 24.
\<close>

theorem repack_kana_payload:
  "repack_log example_cp932 example_default_codec example_gzip [(kana_a, [120])] False 1
     = Inr (kana_archive, kana_log)
   \<and> map w_offset kana_log = [23]
   \<and> map w_stored kana_log = [[120]]
   \<and> slice kana_archive 23 1 = [1]
   \<and> slice kana_archive 24 1 = [120]"
proof -
  have 1: "map w_offset kana_log = [23]" "map w_stored kana_log = [[120]]"
    by (simp_all add: kana_log_def)
  have 2: "slice kana_archive 23 1 = [1]" "slice kana_archive 24 1 = [120]"
    by (simp_all add: kana_archive_def slice_def)
  from repack_kana 1 2 show ?thesis by simp
qed

section \<open>The name in the compressed stream\<close>

text \<open>
  Claim C5 says that \<^verbatim>\<open>write_gzip_name\<close> returns the first 10 input bytes, with the
  FNAME bit set and the operating-system byte 3, then the file name encoded in the fixed
  code page and a null byte, then the input from offset 10 on. The code encodes the name
  with the default codec of its cursor instead. For the name \<open>kana_a\<close> and the
  compressed stream of \<^verbatim>\<open>b"hello"\<close> the result holds the three bytes of UTF-8,
  \<^verbatim>\<open>E3 81 82\<close>, where the code page gives the two bytes \<^verbatim>\<open>82 A0\<close>.
\<close>

theorem write_gzip_name_kana:
  "write_gzip_name example_default_codec kana_a gzip_hello = Inr gzip_hello_kana
   \<and> gzip_hello_kana
       = take 3 gzip_hello @ [gzip_hello ! 3 OR 8] @ take 5 (drop 4 gzip_hello) @ [3]
           @ [227, 129, 130] @ [0] @ drop 10 gzip_hello
   \<and> example_cp932 kana_a = Some [130, 160]"
proof -
  have 1: "gzip_hello_kana
       = take 3 gzip_hello @ [gzip_hello ! 3 OR 8] @ take 5 (drop 4 gzip_hello) @ [3]
           @ [227, 129, 130] @ [0] @ drop 10 gzip_hello"
    by (simp add: gzip_hello_kana_def gzip_hello_def)
  have 2: "example_cp932 kana_a = Some [130, 160]"
    by (simp add: example_cp932_def kana_a_def encode_def)
  from injected_kana 1 2 show ?thesis by (simp only: simp_thms)
qed

section \<open>The entry table of a written archive\<close>

text \<open>
  Claim C8 says that in every archive that \<^verbatim>\<open>repack\<close> produces every offset of the
  table is at least the header size. The code breaks it for a name that the code page and
  UTF-8 encode in different lengths. For the one file of the name \<open>kana_a\<close> with the
  content \<^verbatim>\<open>b"x"\<close>, without compression at an alignment of 1, the output begins
  with a header of 24 bytes, and the offset of its only entry is 23, inside that header.
\<close>

theorem repack_kana_table:
  "repack_log example_cp932 example_default_codec example_gzip [(kana_a, [120])] False 1
     = Inr (kana_archive, kana_log)
   \<and> length (header_bytes False 23 1 kana_log) = 24
   \<and> take 24 kana_archive = header_bytes False 23 1 kana_log
   \<and> map w_offset kana_log = [23]
   \<and> slice kana_archive 16 4 = uint32_be 23"
proof -
  have 1: "length (header_bytes False 23 1 kana_log) = 24"
    by (simp add: header_bytes_def entry_bytes_def kana_log_def)
  have 2: "take 24 kana_archive = header_bytes False 23 1 kana_log"
    by (simp add: kana_archive_def header_bytes_def entry_bytes_def kana_log_def encode_def
        uint32_be_def)
  have 3: "map w_offset kana_log = [23]" by (simp add: kana_log_def)
  have 4: "slice kana_archive 16 4 = uint32_be 23"
    by (simp add: kana_archive_def slice_def uint32_be_def)
  from repack_kana 1 2 3 4 show ?thesis by simp
qed

section \<open>Errors and what has been emitted before them\<close>

text \<open>
  Claim C6, amended. When the magic, the header or the entry table of the input does not
  parse, \<^verbatim>\<open>unpack\<close> stops with that error and emits no file. When the table parses,
  the only error left is a decompression failure at an entry, and it stops the call after
  the files of all entries before the failing one have been emitted: the result holds
  exactly these files, in table order, and none for the failing entry and those behind
  it.
\<close>

theorem unpack_error_output:
  "(case parse_archive data of
      Inl e \<Rightarrow> unpack gunzip data = ([], Some e)
    | Inr (ic, entries) \<Rightarrow>
        unpack gunzip data =
          (map (\<lambda>en. (fst en, the (decoded gunzip ic data en)))
             (takeWhile (\<lambda>en. decoded gunzip ic data en \<noteq> None) entries),
           if list_all (\<lambda>en. decoded gunzip ic data en \<noteq> None) entries then None
           else Some DecompressionError))"
proof (cases "parse_archive data")
  case (Inl e)
  then show ?thesis by (simp add: unpack_def)
next
  case (Inr x)
  obtain ic entries where x: "x = (ic, entries)" by (cases x) auto
  have "unpack gunzip data = extract_entries gunzip ic data entries"
    using Inr x by (simp add: unpack_def)
  then show ?thesis
    using Inr x by (simp add: extract_entries_result)
qed

theorem unpack_error_output_witness:
  "parse_archive partial_archive = Inr (True, [(''a.txt'', 44, 31), (''b'', 0, 4)])
   \<and> decoded example_gunzip True partial_archive (''a.txt'', 44, 31) = Some hello
   \<and> decoded example_gunzip True partial_archive (''b'', 0, 4) = None
   \<and> unpack example_gunzip partial_archive = ([(''a.txt'', hello)], Some DecompressionError)"
  using unpack_error_output [where data = partial_archive and gunzip = example_gunzip]
  by (simp add: parse_partial decoded_partial)

text \<open>The first entry decodes and its file is emitted, the second one does not
  decode: the call ends with an error and with one file emitted.\<close>

theorem unpack_partial_output:
  "slice partial_archive 44 31 = gzip_hello_named
   \<and> example_gunzip gzip_hello_named = Some hello
   \<and> slice partial_archive 0 4 = [70, 65, 114, 67]
   \<and> example_gunzip [70, 65, 114, 67] = None
   \<and> unpack example_gunzip partial_archive = ([(''a.txt'', hello)], Some DecompressionError)"
proof -
  have s: "slice partial_archive 44 31 = gzip_hello_named"
    "slice partial_archive 0 4 = [70, 65, 114, 67]"
    by (simp_all add: partial_archive_def slice_def gzip_hello_named_def)
  have "unpack example_gunzip partial_archive = ([(''a.txt'', hello)], Some DecompressionError)"
    by (simp add: unpack_def parse_partial s gunzip_named gunzip_magic)
  with s gunzip_named gunzip_magic show ?thesis by simp
qed

section \<open>Entries that reach behind the end of the input\<close>

text \<open>
  Claim C7, amended. Once the magic and the entry table have parsed, \<^verbatim>\<open>unpack\<close>
  never reports \<open>OutOfBounds\<close>: the slice of an entry whose range exceeds the input is
  cut at the end of the buffer, so it holds the bytes that are there, at most the stored
  size. In an uncompressed archive these bytes are emitted for the entry and the call ends
  without an error. \<open>OutOfBounds\<close> comes from a truncated header or table only.
\<close>

theorem unpack_no_out_of_bounds_entry:
  assumes "parse_archive data = Inr (ic, entries)"
  shows "snd (unpack gunzip data) \<noteq> Some OutOfBounds
     \<and> (\<not> ic \<longrightarrow>
          unpack gunzip data =
            (map (\<lambda>(name, offset, stored_size). (name, slice data offset stored_size)) entries,
             None))
     \<and> (\<forall>(name, offset, stored_size) \<in> set entries.
          length (slice data offset stored_size) = min stored_size (length data - offset))"
proof -
  have 1: "snd (unpack gunzip data) \<noteq> Some OutOfBounds"
    using assms by (simp add: unpack_def extract_entries_result)
  have 2: "\<not> ic \<longrightarrow> unpack gunzip data =
            (map (\<lambda>(name, offset, stored_size). (name, slice data offset stored_size)) entries,
             None)"
    using assms by (simp add: unpack_def extract_entries_uncompressed)
  have 3: "\<forall>(name, offset, stored_size) \<in> set entries.
          length (slice data offset stored_size) = min stored_size (length data - offset)"
    by (simp add: length_slice split: prod.splits)
  from 1 2 3 show ?thesis by blast
qed

theorem unpack_no_out_of_bounds_entry_witness:
  "parse_archive over_archive = Inr (False, [(''a.txt'', 26, 100)])
   \<and> snd (unpack example_gunzip over_archive) \<noteq> Some OutOfBounds
   \<and> unpack example_gunzip over_archive = ([(''a.txt'', slice over_archive 26 100)], None)
   \<and> length (slice over_archive 26 100) = 5"
  using unpack_no_out_of_bounds_entry [OF parse_over, of example_gunzip] parse_over
  by (simp add: over_archive_def hello_def)

text \<open>The entry claims the bytes from 26 to 126 of an input of 31 bytes; the five bytes
  that are there are emitted and no error is reported.\<close>

theorem unpack_entry_beyond_end:
  "parse_archive over_archive = Inr (False, [(''a.txt'', 26, 100)])
   \<and> length over_archive = 31
   \<and> unpack example_gunzip over_archive = ([(''a.txt'', hello)], None)"
proof -
  have "unpack example_gunzip over_archive = ([(''a.txt'', hello)], None)"
    by (simp add: unpack_def parse_over) (simp add: over_archive_def slice_def hello_def)
  then show ?thesis by (simp add: parse_over) (simp add: over_archive_def hello_def)
qed

section \<open>The alignment field on the read path\<close>

text \<open>
  Claim C9, amended. For two input buffers of the same length that differ only in the
  four alignment bytes at the offsets 8 to 11, the magic, the header and the entry table
  parse to the same result (the same entries or the same error); and when no entry's
  payload range holds one of these four bytes (it ends at or before offset 8, starts at
  or behind offset 12, or is empty), \<^verbatim>\<open>unpack\<close> emits the same files and ends the
  same way on both. An entry may point at the alignment field; then its file shows the
  difference.
\<close>

theorem unpack_alignment_ignored:
  assumes "length d = length d'" and "take 8 d = take 8 d'" and "drop 12 d = drop 12 d'"
  shows "parse_archive d = parse_archive d'
     \<and> ((case parse_archive d of
            Inl e \<Rightarrow> True
          | Inr (ic, entries) \<Rightarrow>
              \<forall>(name, offset, stored_size) \<in> set entries.
                 offset + stored_size \<le> 8 \<or> 12 \<le> offset \<or> stored_size = 0)
          \<longrightarrow> unpack gunzip d = unpack gunzip d')"
proof -
  have p: "parse_archive d = parse_archive d'"
    by (rule parse_archive_align_ignored [OF assms])
  show ?thesis
  proof (cases "parse_archive d")
    case (Inl e)
    with p have "parse_archive d' = Inl e" by simp
    with Inl show ?thesis by (simp add: unpack_def)
  next
    case (Inr x)
    obtain ic entries where x: "x = (ic, entries)" by (cases x) auto
    with Inr p have p': "parse_archive d' = Inr (ic, entries)" by simp
    from extract_entries_align_ignored [OF assms(2,3), of entries gunzip ic]
    show ?thesis using Inr x p' by (simp add: unpack_def)
  qed
qed

theorem unpack_alignment_ignored_witness:
  "length example_archive = length realigned_archive
   \<and> take 8 example_archive = take 8 realigned_archive
   \<and> drop 12 example_archive = drop 12 realigned_archive
   \<and> example_archive \<noteq> realigned_archive
   \<and> parse_archive example_archive = Inr (False, [(''a.txt'', 48, 5), (''b'', 64, 3)])
   \<and> parse_archive example_archive = parse_archive realigned_archive
   \<and> unpack example_gunzip example_archive = unpack example_gunzip realigned_archive"
proof -
  have 1: "length example_archive = length realigned_archive"
    by (simp add: realigned_archive_def example_archive_def)
  have 2: "take 8 example_archive = take 8 realigned_archive"
    by (simp add: realigned_archive_def example_archive_def)
  have 3: "drop 12 example_archive = drop 12 realigned_archive"
    by (simp add: realigned_archive_def example_archive_def)
  have 4: "example_archive \<noteq> realigned_archive"
    by (simp add: realigned_archive_def example_archive_def)
  from unpack_alignment_ignored [OF 1 2 3, of example_gunzip] parse_example 1 2 3 4
  show ?thesis by simp
qed

text \<open>Two inputs that differ in the last alignment byte only, and whose entry is the
  alignment field: the emitted files differ.\<close>

theorem unpack_alignment_exposed:
  "length (align_archive 1) = length (align_archive 2)
   \<and> take 8 (align_archive 1) = take 8 (align_archive 2)
   \<and> drop 12 (align_archive 1) = drop 12 (align_archive 2)
   \<and> unpack example_gunzip (align_archive 1) = ([(''a'', [0, 0, 0, 1])], None)
   \<and> unpack example_gunzip (align_archive 2) = ([(''a'', [0, 0, 0, 2])], None)"
  by (simp add: unpack_def parse_align) (simp add: align_archive_def slice_def)

section \<open>No validation of the table on the read path\<close>

text \<open>
  Claim C10, amended. For every input whose magic and entry table parse, and in which,
  if the archive is compressed, the slice of every entry decompresses, \<^verbatim>\<open>unpack\<close>
  ends without an error and emits exactly one file per table entry, in table order, under
  the entry's name: the slice, or what it decompresses to. Nothing is checked about the
  offsets and names: entries may overlap, come in any order, lie inside the header or
  share a name. In a compressed archive an entry whose slice does not decompress ends the
  call, and no file is emitted for it.
\<close>

theorem unpack_one_pair_per_entry:
  assumes "parse_archive data = Inr (ic, entries)"
    and "ic \<longrightarrow> (\<forall>(name, offset, stored_size) \<in> set entries.
                   gunzip (slice data offset stored_size) \<noteq> None)"
  shows "unpack gunzip data =
           (map (\<lambda>(name, offset, stored_size).
                   (name, if ic then the (gunzip (slice data offset stored_size))
                          else slice data offset stored_size)) entries,
            None)"
proof (cases ic)
  case False
  with assms(1) show ?thesis by (simp add: unpack_def extract_entries_uncompressed)
next
  case True
  with assms(2) have all: "\<forall>en \<in> set entries. decoded gunzip True data en \<noteq> None"
    by (auto simp: decoded_def)
  then have tw: "takeWhile (\<lambda>en. decoded gunzip True data en \<noteq> None) entries = entries"
    by (simp add: takeWhile_eq_all_conv)
  from all have la: "list_all (\<lambda>en. decoded gunzip True data en \<noteq> None) entries"
    by (simp add: list_all_iff)
  have "extract_entries gunzip True data entries
      = (map (\<lambda>en. (fst en, the (decoded gunzip True data en))) entries, None)"
    by (simp only: extract_entries_result tw la if_True)
  moreover have "map (\<lambda>en. (fst en, the (decoded gunzip True data en))) entries
      = map (\<lambda>(name, offset, stored_size).
               (name, the (gunzip (slice data offset stored_size)))) entries"
    by (simp add: decoded_def split_def)
  ultimately show ?thesis
    using assms(1) True by (simp add: unpack_def)
qed

theorem unpack_one_pair_per_entry_witness:
  "parse_archive overlapping_archive = Inr (False, [(''a'', 20, 8), (''a'', 18, 4)])
   \<and> unpack example_gunzip overlapping_archive
       = ([(''a'', [0, 8, 97, 0, 0, 0, 0, 18]), (''a'', [0, 0, 0, 8])], None)
   \<and> parse_archive shared_archive = Inr (True, [(''a'', 40, 31), (''a'', 40, 31)])
   \<and> example_gunzip (slice shared_archive 40 31) = Some hello
   \<and> unpack example_gunzip shared_archive = ([(''a'', hello), (''a'', hello)], None)"
proof -
  from unpack_one_pair_per_entry [OF parse_overlapping, of example_gunzip]
  have 1: "unpack example_gunzip overlapping_archive
       = ([(''a'', [0, 8, 97, 0, 0, 0, 0, 18]), (''a'', [0, 0, 0, 8])], None)"
    by (simp add: overlapping_archive_def slice_def)
  from unpack_one_pair_per_entry [OF parse_shared, of example_gunzip]
  have 2: "unpack example_gunzip shared_archive = ([(''a'', hello), (''a'', hello)], None)"
    by (simp add: slice_shared gunzip_named)
  from 1 2 show ?thesis
    by (simp add: parse_overlapping parse_shared slice_shared gunzip_named)
qed

text \<open>The table of this compressed archive parses to one entry; its slice is no gzip
  stream, and no file is emitted.\<close>

theorem unpack_undecodable_entry:
  "parse_archive undecodable_archive = Inr (True, [(''a'', 0, 4)])
   \<and> slice undecodable_archive 0 4 = [70, 65, 114, 67]
   \<and> example_gunzip [70, 65, 114, 67] = None
   \<and> unpack example_gunzip undecodable_archive = ([], Some DecompressionError)"
proof -
  have s: "slice undecodable_archive 0 4 = [70, 65, 114, 67]"
    by (simp add: undecodable_archive_def slice_def)
  have "unpack example_gunzip undecodable_archive = ([], Some DecompressionError)"
    by (simp add: unpack_def parse_undecodable s gunzip_magic)
  with s gunzip_magic show ?thesis by (simp add: parse_undecodable)
qed

end
